theory Spec2Isabelle
  imports Complex_Main "HOL-Library.Char_ord" "HOL-Library.List_Lexorder"
    "HOL-Library.Multiset"
begin

section \<open>Selection state of the thumbnails\<close>

text \<open>
  \<^verbatim>\<open>ThumbnailWidget\<close> keeps two flags, \<^verbatim>\<open>_is_selected\<close> (initially True) and
  \<^verbatim>\<open>_is_filtered\<close> (initially False). Only the flags are modelled: the style sheet
  and the opacity are functions of them and no flag depends on either.
\<close>

record thumbnail =
  is_selected :: bool
  is_filtered :: bool

definition new_thumbnail :: thumbnail where
  "new_thumbnail = \<lparr>is_selected = True, is_filtered = False\<rparr>"

definition set_filtered :: "bool \<Rightarrow> thumbnail \<Rightarrow> thumbnail" where
  "set_filtered filtered w =
     (let w1 = w\<lparr>is_filtered := filtered\<rparr>
      in if is_filtered w1 then w1\<lparr>is_selected := False\<rparr> else w1)"

definition set_selected :: "bool \<Rightarrow> bool \<Rightarrow> thumbnail \<Rightarrow> thumbnail" where
  "set_selected selected force w =
     (if force then
        (let w1 = w\<lparr>is_selected := selected\<rparr>
         in if is_selected w1 then w1\<lparr>is_filtered := False\<rparr> else w1)
      else if selected then
        (if \<not> is_filtered w then w\<lparr>is_selected := True\<rparr> else w)
      else w\<lparr>is_selected := False\<rparr>)"

text \<open>A left click: \<^verbatim>\<open>self.set_selected(not self._is_selected, force=True)\<close>.\<close>

definition mousePressEvent :: "thumbnail \<Rightarrow> thumbnail" where
  "mousePressEvent w = set_selected (\<not> is_selected w) True w"

text \<open>
  \<^verbatim>\<open>MainWindow.thumbnail_widgets\<close> is a dict from file name to widget. It is an
  association list here, in insertion order; \<open>dict_set\<close> is the assignment
  \<^verbatim>\<open>d[k] = v\<close>, which keeps the place of a key already present.
\<close>

type_synonym widgets = "(string \<times> thumbnail) list"

fun dict_set :: "string \<Rightarrow> thumbnail \<Rightarrow> widgets \<Rightarrow> widgets" where
  "dict_set k v [] = [(k, v)]"
| "dict_set k v ((k', v') # d) =
     (if k' = k then (k, v) # d else (k', v') # dict_set k v d)"

text \<open>The loops \<^verbatim>\<open>for widget in self.thumbnail_widgets.values(): ...\<close>.\<close>

definition for_each_widget :: "(thumbnail \<Rightarrow> thumbnail) \<Rightarrow> widgets \<Rightarrow> widgets" where
  "for_each_widget f d = map (\<lambda>(k, w). (k, f w)) d"

definition reset_all_thumbnails :: "widgets \<Rightarrow> widgets" where
  "reset_all_thumbnails d = for_each_widget (set_selected True True) d"

definition select_visible_thumbnails :: "widgets \<Rightarrow> widgets" where
  "select_visible_thumbnails d = for_each_widget (set_selected True False) d"

definition deselect_all_thumbnails :: "widgets \<Rightarrow> widgets" where
  "deselect_all_thumbnails d = for_each_widget (set_selected False False) d"

text \<open>
  \<^verbatim>\<open>on_processing_done\<close>: the excluded list of the signal is made a set, and
  every widget whose name is in it gets \<^verbatim>\<open>set_filtered(True)\<close>; the others are
  not touched.
\<close>

definition on_processing_done :: "string list \<Rightarrow> widgets \<Rightarrow> widgets" where
  "on_processing_done excluded_list d =
     (let excluded_set = set excluded_list
      in map (\<lambda>(file_name, w).
                (file_name, if file_name \<in> excluded_set then set_filtered True w else w)) d)"

text \<open>
  \<^verbatim>\<open>on_files_loaded\<close>: the old widgets are dropped and one fresh widget is stored
  under the base name of every path. \<open>basename\<close> stands for \<^verbatim>\<open>os.path.basename\<close>.
\<close>

definition on_files_loaded :: "(string \<Rightarrow> string) \<Rightarrow> string list \<Rightarrow> widgets" where
  "on_files_loaded basename file_paths =
     foldl (\<lambda>d file_path. dict_set (basename file_path) new_thumbnail d) [] file_paths"

text \<open>A click on the widget stored under a name, and a direct \<^verbatim>\<open>set_filtered\<close> on it.\<close>

definition click_thumbnail :: "string \<Rightarrow> widgets \<Rightarrow> widgets" where
  "click_thumbnail name d = map (\<lambda>(k, w). (k, if k = name then mousePressEvent w else w)) d"

definition mark_filtered :: "string \<Rightarrow> bool \<Rightarrow> widgets \<Rightarrow> widgets" where
  "mark_filtered name filtered d =
     map (\<lambda>(k, w). (k, if k = name then set_filtered filtered w else w)) d"

datatype operation =
    Toggle string
  | Mark_filtered string bool
  | Reset_all
  | Select_visible
  | Deselect_all
  | Apply_result "string list"
  | Files_loaded "string list"

fun step :: "(string \<Rightarrow> string) \<Rightarrow> operation \<Rightarrow> widgets \<Rightarrow> widgets" where
  "step basename (Toggle name) d = click_thumbnail name d"
| "step basename (Mark_filtered name b) d = mark_filtered name b d"
| "step basename Reset_all d = reset_all_thumbnails d"
| "step basename Select_visible d = select_visible_thumbnails d"
| "step basename Deselect_all d = deselect_all_thumbnails d"
| "step basename (Apply_result excluded) d = on_processing_done excluded d"
| "step basename (Files_loaded file_paths) d = on_files_loaded basename file_paths"

text \<open>All the states a sequence of operations goes through, the first one included.\<close>

fun states :: "(string \<Rightarrow> string) \<Rightarrow> widgets \<Rightarrow> operation list \<Rightarrow> widgets list" where
  "states basename d [] = [d]"
| "states basename d (x # xs) = d # states basename (step basename x d) xs"

definition thumbnail_ok :: "thumbnail \<Rightarrow> bool" where
  "thumbnail_ok w = (is_filtered w \<longrightarrow> \<not> is_selected w)"

definition widgets_ok :: "widgets \<Rightarrow> bool" where
  "widgets_ok d = list_all (\<lambda>(k, w). thumbnail_ok w) d"

section \<open>Natural ordering of file names\<close>

text \<open>
  \<^verbatim>\<open>natural_sort_key(s)\<close> is
  \<^verbatim>\<open>[int(text) if text.isdigit() else text.lower() for text in re.split(r'(\d+)', s)]\<close>.
  File names are taken as ASCII strings: a digit is one of 0 to 9, and \<^verbatim>\<open>lower\<close>
  changes the letters A to Z only. Outside ASCII the functions of Python differ from
  these: \<^verbatim>\<open>str.isdigit\<close> accepts characters that \<^verbatim>\<open>\d\<close> does not split off and
  \<^verbatim>\<open>int\<close> rejects with ValueError, and \<^verbatim>\<open>str.lower\<close> changes more letters. What
  is proved of the ordering is proved of ASCII names, stated as \<open>ascii_name\<close>.
\<close>

definition is_digit :: "char \<Rightarrow> bool" where
  "is_digit c = (CHR ''0'' \<le> c \<and> c \<le> CHR ''9'')"

definition lower_char :: "char \<Rightarrow> char" where
  "lower_char c = (if CHR ''A'' \<le> c \<and> c \<le> CHR ''Z'' then char_of (of_char c + (32::nat)) else c)"

definition lower :: "string \<Rightarrow> string" where
  "lower s = map lower_char s"

definition int_of_digits :: "string \<Rightarrow> nat" where
  "int_of_digits s = foldl (\<lambda>n c. 10 * n + (of_char c - 48)) 0 s"

definition isdigit :: "string \<Rightarrow> bool" where
  "isdigit s = (s \<noteq> [] \<and> list_all is_digit s)"

text \<open>
  \<^verbatim>\<open>re.split(r'(\d+)', s)\<close>: the text before the first run of digits, that run,
  and the split of what follows it; a string without digits is returned whole. The
  pieces at even positions are the texts between the runs (the first and the last
  may be empty), the pieces at odd positions are the runs of digits.
\<close>

function re_split :: "string \<Rightarrow> string list" where
  "re_split s =
     (let r = dropWhile (\<lambda>c. \<not> is_digit c) s
      in if r = [] then [s]
         else takeWhile (\<lambda>c. \<not> is_digit c) s # takeWhile is_digit r # re_split (dropWhile is_digit r))"
  by pat_completeness auto
termination
proof (relation "measure length")
  show "wf (measure length)" by simp
next
  fix s :: string and r
  assume r: "r = dropWhile (\<lambda>c. \<not> is_digit c) s" and ne: "r \<noteq> []"
  then have "is_digit (hd r)" using hd_dropWhile[of "\<lambda>c. \<not> is_digit c" s] by simp
  with ne have "length (dropWhile is_digit r) < length r"
    by (cases r) (simp_all add: le_imp_less_Suc length_dropWhile_le)
  moreover have "length r \<le> length s" using r by (simp add: length_dropWhile_le)
  ultimately show "(dropWhile is_digit r, s) \<in> measure length" by simp
qed

datatype key_part = Num nat | Txt string

definition key_part_of :: "string \<Rightarrow> key_part" where
  "key_part_of text = (if isdigit text then Num (int_of_digits text) else Txt (lower text))"

definition natural_sort_key :: "string \<Rightarrow> key_part list" where
  "natural_sort_key s = map key_part_of (re_split s)"

text \<open>
  The exceptions of the model. Python compares two keys as lists: the first position
  where the elements differ decides, by \<^verbatim>\<open><\<close> on the two elements, which raises
  TypeError between an int and a str; a proper prefix is smaller.
\<close>

datatype error = TypeError | KeyError string | IOError string

fun part_lt :: "key_part \<Rightarrow> key_part \<Rightarrow> error + bool" where
  "part_lt (Num a) (Num b) = Inr (a < b)"
| "part_lt (Txt a) (Txt b) = Inr (a < b)"
| "part_lt _ _ = Inl TypeError"

fun key_lt :: "key_part list \<Rightarrow> key_part list \<Rightarrow> error + bool" where
  "key_lt [] [] = Inr False"
| "key_lt [] (y # ys) = Inr True"
| "key_lt (x # xs) [] = Inr False"
| "key_lt (x # xs) (y # ys) = (if x = y then key_lt xs ys else part_lt x y)"

text \<open>
  \<^verbatim>\<open>list.sort(key=natural_sort_key)\<close> is a stable sort that only uses \<^verbatim>\<open><\<close> on the
  keys; it is modelled by a stable insertion sort. A comparison that raises makes the
  sort raise.
\<close>

fun insort_by_key :: "string \<Rightarrow> string list \<Rightarrow> error + string list" where
  "insort_by_key x [] = Inr [x]"
| "insort_by_key x (y # ys) =
     (case key_lt (natural_sort_key y) (natural_sort_key x) of
        Inl e \<Rightarrow> Inl e
      | Inr True \<Rightarrow> (case insort_by_key x ys of Inl e \<Rightarrow> Inl e | Inr zs \<Rightarrow> Inr (y # zs))
      | Inr False \<Rightarrow> Inr (x # y # ys))"

fun sort_by_key :: "string list \<Rightarrow> error + string list" where
  "sort_by_key [] = Inr []"
| "sort_by_key (x # xs) =
     (case sort_by_key xs of Inl e \<Rightarrow> Inl e | Inr ys \<Rightarrow> insort_by_key x ys)"


declare re_split.simps [simp del]

text \<open>The order on file names that the keys induce, and the shape of the pieces and keys.\<close>

definition natural_less :: "string \<Rightarrow> string \<Rightarrow> bool" where
  "natural_less s t = (key_lt (natural_sort_key s) (natural_sort_key t) = Inr True)"

definition natural_le :: "string \<Rightarrow> string \<Rightarrow> bool" where
  "natural_le s t = (key_lt (natural_sort_key t) (natural_sort_key s) = Inr False)"

definition no_digit :: "string \<Rightarrow> bool" where
  "no_digit s = list_all (\<lambda>c. \<not> is_digit c) s"

fun alternating_runs :: "bool \<Rightarrow> string list \<Rightarrow> bool" where
  "alternating_runs first [] = False"
| "alternating_runs first [t] = no_digit t"
| "alternating_runs first (t # d # rest) =
     (no_digit t \<and> (first \<or> t \<noteq> []) \<and> isdigit d \<and> alternating_runs False rest)"

fun alternating :: "bool \<Rightarrow> key_part list \<Rightarrow> bool" where
  "alternating t [] = True"
| "alternating t (Txt s # ks) = (t \<and> alternating False ks)"
| "alternating t (Num n # ks) = (\<not> t \<and> alternating True ks)"

section \<open>The worker tasks\<close>

text \<open>
  What a task emits is the list of its signals, in order. A log line is kept as the
  kind of the message and the values formatted into it.
\<close>

datatype message =
    Template_unreadable string
  | Mode_exclude_containing real
  | Mode_exclude_lacking real
  | Excluded_contains string real
  | Kept_lacks string real
  | Excluded_lacks string real
  | Kept_contains string real
  | Skipped_unprocessable string
  | Detection_finished nat
  | Animation_started int
  | Animation_comparing nat
  | Cannot_process string
  | Similar string string int
  | Different string string int
  | Compare_error error
  | Animation_finished nat
  | No_images_for_pdf
  | Pdf_started nat
  | Adding_cover string
  | Adding_page string
  | Skipped_unopenable string
  | Pdf_created
  | Pdf_failed
  | Task_failed string error

datatype pdf_text = Output_path string | No_image_text | Exception_text

datatype signal =
    Log_message message
  | Processing_done string "string list"
  | Pdf_done string pdf_text

text \<open>
  A Python set of names is a list without repetition; \<open>set_add\<close> is
  \<^verbatim>\<open>excluded_set.add\<close>. Its order stands for the unspecified order of
  \<^verbatim>\<open>list(excluded_set)\<close>; the receiver turns the list back into a set.
\<close>

definition set_add :: "string \<Rightarrow> string list \<Rightarrow> string list" where
  "set_add x xs = (if x \<in> set xs then xs else xs @ [x])"

text \<open>The names carried by the \<^verbatim>\<open>processing_done\<close> signals of a run.\<close>

fun excluded_in :: "signal \<Rightarrow> string list" where
  "excluded_in (Processing_done task_name excluded_list) = excluded_list"
| "excluded_in _ = []"

definition excluded_of :: "signal list \<Rightarrow> string list" where
  "excluded_of signals = concat (map excluded_in signals)"

fun is_processing_done :: "signal \<Rightarrow> bool" where
  "is_processing_done (Processing_done task_name excluded_list) = True"
| "is_processing_done _ = False"

text \<open>
  \<^verbatim>\<open>watermark_check_task\<close>. \<open>open_template\<close> stands for opening the template and
  converting it to a grey array, \<open>max_match template path\<close> for opening the image,
  \<^verbatim>\<open>cv2.matchTemplate\<close> and the maximum of \<^verbatim>\<open>cv2.minMaxLoc\<close>; \<open>None\<close> is an
  exception. Scores and the threshold are real numbers.
\<close>

definition watermark_check_file ::
  "(string \<Rightarrow> string) \<Rightarrow> (string \<Rightarrow> real option) \<Rightarrow> real \<Rightarrow> bool \<Rightarrow>
   string list \<times> signal list \<Rightarrow> string \<Rightarrow> string list \<times> signal list" where
  "watermark_check_file basename max_match threshold invert_logic st file_path =
     (let (excluded_set, log) = st; file_name = basename file_path
      in case max_match file_path of
           None \<Rightarrow>
             (set_add file_name excluded_set,
              log @ [Log_message (Skipped_unprocessable file_name)])
         | Some max_val \<Rightarrow>
             (let found_watermark = (max_val \<ge> threshold)
              in if invert_logic then
                   (if found_watermark then
                      (set_add file_name excluded_set,
                       log @ [Log_message (Excluded_contains file_name max_val)])
                    else (excluded_set, log @ [Log_message (Kept_lacks file_name max_val)]))
                 else
                   (if \<not> found_watermark then
                      (set_add file_name excluded_set,
                       log @ [Log_message (Excluded_lacks file_name max_val)])
                    else (excluded_set, log @ [Log_message (Kept_contains file_name max_val)]))))"

definition watermark_check_task ::
  "(string \<Rightarrow> string) \<Rightarrow> (string \<Rightarrow> 't option) \<Rightarrow> ('t \<Rightarrow> string \<Rightarrow> real option) \<Rightarrow>
   string \<Rightarrow> real \<Rightarrow> bool \<Rightarrow> string list \<Rightarrow> signal list" where
  "watermark_check_task basename open_template max_match watermark_path threshold invert_logic
     file_list =
     (case open_template watermark_path of
        None \<Rightarrow>
          [Log_message (Template_unreadable watermark_path), Processing_done ''watermark'' []]
      | Some template \<Rightarrow>
          (let (excluded_set, log) =
                 foldl (watermark_check_file basename (max_match template) threshold invert_logic)
                   ([], [Log_message (if invert_logic then Mode_exclude_containing threshold
                                      else Mode_exclude_lacking threshold)])
                   file_list
           in log @ [Log_message (Detection_finished (length excluded_set)),
                     Processing_done ''watermark'' excluded_set]))"

text \<open>
  \<^verbatim>\<open>animation_check_task\<close>. \<open>phash path\<close> stands for
  \<^verbatim>\<open>imagehash.phash(Image.open(path))\<close>, \<open>hamming\<close> for the difference of two hashes,
  \<open>join\<close> for \<^verbatim>\<open>os.path.join\<close>. \<open>compare_pair\<close> is the body of the loop: the lookup
  of the previous hash in the cache comes first and raises KeyError when it is missing.
  Two hashes made by \<^verbatim>\<open>phash\<close> have the same size, so their difference is taken to
  return. An exception of the sort at the start would leave the function and be logged
  by \<^verbatim>\<open>run\<close>, with no \<^verbatim>\<open>processing_done\<close> signal.
\<close>

definition compare_pair ::
  "(string \<Rightarrow> string \<Rightarrow> string) \<Rightarrow> (string \<Rightarrow> 'h option) \<Rightarrow> ('h \<Rightarrow> 'h \<Rightarrow> int) \<Rightarrow>
   string \<Rightarrow> int \<Rightarrow> string \<Rightarrow> string \<Rightarrow>
   (string \<rightharpoonup> 'h) \<times> string list \<times> signal list \<Rightarrow>
   (string \<rightharpoonup> 'h) \<times> string list \<times> signal list" where
  "compare_pair join phash hamming folder threshold prev_file curr_file st =
     (let (hash_cache, excluded_set, log) = st; curr_path = join folder curr_file
      in case hash_cache prev_file of
           None \<Rightarrow>
             (hash_cache, excluded_set, log @ [Log_message (Compare_error (KeyError prev_file))])
         | Some hash_prev \<Rightarrow>
             (case phash curr_path of
                None \<Rightarrow>
                  (hash_cache, excluded_set,
                   log @ [Log_message (Compare_error (IOError curr_path))])
              | Some hash_curr \<Rightarrow>
                  (let hash_cache' = hash_cache(curr_file \<mapsto> hash_curr);
                       distance = hamming hash_prev hash_curr
                   in if distance \<le> threshold then
                        (hash_cache', set_add prev_file excluded_set,
                         log @ [Log_message (Similar prev_file curr_file distance)])
                      else
                        (hash_cache', excluded_set,
                         log @ [Log_message (Different prev_file curr_file distance)]))))"

definition animation_check_task ::
  "(string \<Rightarrow> string \<Rightarrow> string) \<Rightarrow> (string \<Rightarrow> 'h option) \<Rightarrow> ('h \<Rightarrow> 'h \<Rightarrow> int) \<Rightarrow>
   string \<Rightarrow> int \<Rightarrow> string list \<Rightarrow> signal list" where
  "animation_check_task join phash hamming folder threshold selected_files =
     (case sort_by_key selected_files of
        Inl e \<Rightarrow> [Log_message (Task_failed ''ANIMATION_CHECK'' e)]
      | Inr valid_files \<Rightarrow>
          (let log0 = [Log_message (Animation_started threshold),
                       Log_message (Animation_comparing (length valid_files))]
           in if length valid_files > 1 then
                (case phash (join folder (valid_files ! 0)) of
                   None \<Rightarrow>
                     log0 @ [Log_message (Cannot_process (valid_files ! 0)),
                             Processing_done ''animation'' []]
                 | Some first_hash \<Rightarrow>
                     (let (hash_cache, excluded_set, log) =
                            foldl (\<lambda>st i. compare_pair join phash hamming folder threshold
                                              (valid_files ! (i - 1)) (valid_files ! i) st)
                              ([valid_files ! 0 \<mapsto> first_hash], [], log0)
                              [1..<length valid_files]
                      in log @ [Log_message (Animation_finished (length excluded_set)),
                                Processing_done ''animation'' excluded_set]))
              else log0 @ [Log_message (Animation_finished 0), Processing_done ''animation'' []]))"

text \<open>
  \<^verbatim>\<open>create_pdf_task\<close>. \<open>open_rgb path\<close> stands for
  \<^verbatim>\<open>Image.open(path).convert("RGB")\<close> and \<open>save_ok\<close> tells whether \<^verbatim>\<open>cover.save\<close>
  returns. The second component of the result lists the calls of \<^verbatim>\<open>cover.save\<close>
  that were made, each with the output path and the pages handed over.
\<close>

definition add_page ::
  "(string \<Rightarrow> string \<Rightarrow> string) \<Rightarrow> (string \<Rightarrow> 'i option) \<Rightarrow> string \<Rightarrow>
   'i list \<times> signal list \<Rightarrow> string \<Rightarrow> 'i list \<times> signal list" where
  "add_page join open_rgb folder st filename =
     (let (image_objects, log) = st; log1 = log @ [Log_message (Adding_page filename)]
      in case open_rgb (join folder filename) of
           Some img \<Rightarrow> (image_objects @ [img], log1)
         | None \<Rightarrow> (image_objects, log1 @ [Log_message (Skipped_unopenable filename)]))"

definition create_pdf_task ::
  "(string \<Rightarrow> string \<Rightarrow> string) \<Rightarrow> (string \<Rightarrow> 'i option) \<Rightarrow> (string \<Rightarrow> 'i list \<Rightarrow> bool) \<Rightarrow>
   string \<Rightarrow> string list \<Rightarrow> string \<Rightarrow> signal list \<times> (string \<times> 'i list) list" where
  "create_pdf_task join open_rgb save_ok folder images_to_include output_pdf_path =
     (case images_to_include of
        [] \<Rightarrow> ([Log_message No_images_for_pdf, Pdf_done ''fail'' No_image_text], [])
      | first_name # others \<Rightarrow>
          (let log0 = [Log_message (Pdf_started (length images_to_include)),
                       Log_message (Adding_cover first_name)]
           in case open_rgb (join folder first_name) of
                None \<Rightarrow> (log0 @ [Log_message Pdf_failed, Pdf_done ''fail'' Exception_text], [])
              | Some cover \<Rightarrow>
                  (let (image_objects, log) = foldl (add_page join open_rgb folder) ([], log0) others;
                       pages = cover # image_objects
                   in if save_ok output_pdf_path pages then
                        (log @ [Log_message Pdf_created,
                                Pdf_done ''success'' (Output_path output_pdf_path)],
                         [(output_pdf_path, pages)])
                      else
                        (log @ [Log_message Pdf_failed, Pdf_done ''fail'' Exception_text],
                         [(output_pdf_path, pages)]))))"

text \<open>A path join for the examples.\<close>

definition join_slash :: "string \<Rightarrow> string \<Rightarrow> string" where
  "join_slash folder name = folder @ ''/'' @ name"

text \<open>A list of signals that holds log lines only, and a base name for the examples.\<close>

definition only_logs :: "signal list \<Rightarrow> bool" where
  "only_logs xs = list_all (\<lambda>s. \<not> is_processing_done s \<and> excluded_in s = []) xs"

definition basename_slash :: "string \<Rightarrow> string" where
  "basename_slash p = rev (takeWhile (\<lambda>c. c \<noteq> CHR ''/'') (rev p))"

text \<open>
  The log lines of the loop over the later pages of \<^verbatim>\<open>create_pdf_task\<close>: one line per
  page, followed by a warning when the page cannot be opened.
\<close>

definition pages_log :: "(string \<Rightarrow> string \<Rightarrow> string) \<Rightarrow> (string \<Rightarrow> 'i option) \<Rightarrow> string \<Rightarrow>
    string list \<Rightarrow> signal list" where
  "pages_log join open_rgb folder others =
     concat (map (\<lambda>filename.
        Log_message (Adding_page filename)
        # (case open_rgb (join folder filename) of
             None \<Rightarrow> [Log_message (Skipped_unopenable filename)]
           | Some img \<Rightarrow> [])) others)"

text \<open>
  For frames whose hashes are given by \<open>h\<close>: the distance that the comparison at
  position \<open>i\<close> of the loop computes, between the frames at \<open>i - 1\<close> and \<open>i\<close>,
  and the log line it writes.
\<close>

definition frame_distance :: "('h \<Rightarrow> 'h \<Rightarrow> int) \<Rightarrow> (string \<Rightarrow> 'h) \<Rightarrow> string list \<Rightarrow> nat \<Rightarrow> int" where
  "frame_distance hamming h files i = hamming (h (files ! (i - 1))) (h (files ! i))"

definition comparison ::
  "('h \<Rightarrow> 'h \<Rightarrow> int) \<Rightarrow> (string \<Rightarrow> 'h) \<Rightarrow> int \<Rightarrow> string list \<Rightarrow> nat \<Rightarrow> signal" where
  "comparison hamming h threshold files i =
     Log_message
       (if frame_distance hamming h files i \<le> threshold
        then Similar (files ! (i - 1)) (files ! i) (frame_distance hamming h files i)
        else Different (files ! (i - 1)) (files ! i) (frame_distance hamming h files i))"

text \<open>
  The two steps behind the score of one candidate, which share one \<^verbatim>\<open>try\<close> in
  \<^verbatim>\<open>watermark_check_task\<close>: \<open>open_gray path\<close> stands for
  \<^verbatim>\<open>np.array(Image.open(path).convert('L'))\<close> and \<open>match_template image template\<close> for
  \<^verbatim>\<open>cv2.matchTemplate\<close> followed by the maximum of \<^verbatim>\<open>cv2.minMaxLoc\<close>. Either may
  raise; \<open>match_image\<close> is the \<open>max_match\<close> they make together.
\<close>

definition match_image ::
  "(string \<Rightarrow> 'm option) \<Rightarrow> ('m \<Rightarrow> 't \<Rightarrow> real option) \<Rightarrow> 't \<Rightarrow> string \<Rightarrow> real option" where
  "match_image open_gray match_template template file_path =
     (case open_gray file_path of
        None \<Rightarrow> None
      | Some main_image \<Rightarrow> match_template main_image template)"

text \<open>
  The names the model of the natural ordering covers: every character is an ASCII
  character.
\<close>

definition ascii_name :: "string \<Rightarrow> bool" where
  "ascii_name s = list_all (\<lambda>c. of_char c < (128 :: nat)) s"

section \<open>The invariant of the selection state\<close>

lemma set_filtered_ok: "thumbnail_ok (set_filtered b w)"
  by (simp add: set_filtered_def thumbnail_ok_def Let_def)

lemma set_selected_ok: "thumbnail_ok w \<Longrightarrow> thumbnail_ok (set_selected b f w)"
  by (simp add: set_selected_def thumbnail_ok_def Let_def)

lemma mousePressEvent_ok: "thumbnail_ok w \<Longrightarrow> thumbnail_ok (mousePressEvent w)"
  by (simp add: mousePressEvent_def set_selected_ok)

lemma new_thumbnail_ok: "thumbnail_ok new_thumbnail"
  by (simp add: new_thumbnail_def thumbnail_ok_def)

lemma for_each_widget_ok:
  assumes "\<And>w. thumbnail_ok w \<Longrightarrow> thumbnail_ok (f w)" and "widgets_ok d"
  shows "widgets_ok (for_each_widget f d)"
  using assms by (auto simp: widgets_ok_def for_each_widget_def list_all_iff)

lemma dict_set_ok: "thumbnail_ok v \<Longrightarrow> widgets_ok d \<Longrightarrow> widgets_ok (dict_set k v d)"
  by (induction d) (auto simp: widgets_ok_def)

lemma foldl_dict_set_ok:
  "widgets_ok d \<Longrightarrow>
   widgets_ok (foldl (\<lambda>d file_path. dict_set (basename file_path) new_thumbnail d) d ps)"
  by (induction ps arbitrary: d) (simp_all add: dict_set_ok new_thumbnail_ok)

lemma on_files_loaded_ok: "widgets_ok (on_files_loaded basename ps)"
  unfolding on_files_loaded_def by (rule foldl_dict_set_ok) (simp add: widgets_ok_def)

lemma step_ok: "widgets_ok d \<Longrightarrow> widgets_ok (step basename x d)"
proof (cases x)
  case (Toggle name)
  assume "widgets_ok d"
  then show ?thesis using Toggle
    by (auto simp: click_thumbnail_def widgets_ok_def list_all_iff mousePressEvent_ok)
next
  case (Mark_filtered name b)
  assume "widgets_ok d"
  then show ?thesis using Mark_filtered
    by (auto simp: mark_filtered_def widgets_ok_def list_all_iff set_filtered_ok)
next
  case Reset_all
  assume "widgets_ok d"
  then show ?thesis using Reset_all
    by (simp add: reset_all_thumbnails_def for_each_widget_ok set_selected_ok)
next
  case Select_visible
  assume "widgets_ok d"
  then show ?thesis using Select_visible
    by (simp add: select_visible_thumbnails_def for_each_widget_ok set_selected_ok)
next
  case Deselect_all
  assume "widgets_ok d"
  then show ?thesis using Deselect_all
    by (simp add: deselect_all_thumbnails_def for_each_widget_ok set_selected_ok)
next
  case (Apply_result excluded)
  assume "widgets_ok d"
  then show ?thesis using Apply_result
    by (auto simp: on_processing_done_def Let_def widgets_ok_def list_all_iff set_filtered_ok)
next
  case (Files_loaded ps)
  then show ?thesis by (simp add: on_files_loaded_ok)
qed

lemma states_ok: "widgets_ok d \<Longrightarrow> list_all widgets_ok (states basename d xs)"
  by (induction xs arbitrary: d) (simp_all add: step_ok)

text \<open>
  C1. Whatever the operations applied (a click, \<^verbatim>\<open>set_filtered\<close> on an item, reset
  all, select visible, deselect all, a detection result, a newly loaded folder), every
  state on the way keeps, for every item, "filtered implies not selected": this holds
  from the empty dictionary of a new window and from any state that has the property.
  Besides, \<^verbatim>\<open>set_filtered(True)\<close> leaves the item filtered and not selected, and a
  forced \<^verbatim>\<open>set_selected(True)\<close> leaves it selected and not filtered.
\<close>

theorem selection_invariant:
  "list_all widgets_ok (states basename [] xs)
   \<and> (widgets_ok d \<longrightarrow> list_all widgets_ok (states basename d xs))
   \<and> is_filtered (set_filtered True w) \<and> \<not> is_selected (set_filtered True w)
   \<and> is_selected (set_selected True True w) \<and> \<not> is_filtered (set_selected True True w)"
proof -
  have "widgets_ok []" by (simp add: widgets_ok_def)
  then have "list_all widgets_ok (states basename [] xs)" by (rule states_ok)
  moreover have "widgets_ok d \<longrightarrow> list_all widgets_ok (states basename d xs)"
    by (simp add: states_ok)
  moreover have "is_filtered (set_filtered True w) \<and> \<not> is_selected (set_filtered True w)"
    by (simp add: set_filtered_def)
  moreover have "is_selected (set_selected True True w) \<and> \<not> is_filtered (set_selected True True w)"
    by (simp add: set_selected_def)
  ultimately show ?thesis by blast
qed

theorem selection_invariant_witness:
  "widgets_ok [(''a.png'', \<lparr>is_selected = False, is_filtered = True\<rparr>)]
   \<and> list_all widgets_ok
        (states id [(''a.png'', \<lparr>is_selected = False, is_filtered = True\<rparr>)]
           [Toggle ''a.png'', Apply_result [''a.png''], Select_visible, Reset_all])"
  using selection_invariant
    [of id "[Toggle ''a.png'', Apply_result [''a.png''], Select_visible, Reset_all]"
        "[(''a.png'', \<lparr>is_selected = False, is_filtered = True\<rparr>)]" new_thumbnail]
  by (simp add: widgets_ok_def thumbnail_ok_def)

section \<open>Select visible\<close>

lemma select_visible_nth:
  "i < length d \<Longrightarrow>
   select_visible_thumbnails d ! i = (fst (d ! i), set_selected True False (snd (d ! i)))"
  by (simp add: select_visible_thumbnails_def for_each_widget_def case_prod_beta)

text \<open>
  C5. \<^verbatim>\<open>select_visible_thumbnails\<close> keeps the names and the order of the items, and
  for every item: the filtered flag is what it was; an item that is not filtered is
  selected afterwards; an item that is filtered is left exactly as it was, so the
  operation never makes a filtered item selected.
\<close>

theorem select_visible_soft:
  "map fst (select_visible_thumbnails d) = map fst d
   \<and> (\<forall>i < length d.
        is_filtered (snd (select_visible_thumbnails d ! i)) = is_filtered (snd (d ! i))
        \<and> (\<not> is_filtered (snd (d ! i)) \<longrightarrow> is_selected (snd (select_visible_thumbnails d ! i)))
        \<and> (is_filtered (snd (d ! i)) \<longrightarrow> snd (select_visible_thumbnails d ! i) = snd (d ! i)))"
proof -
  have "map fst (select_visible_thumbnails d) = map fst d"
    by (simp add: select_visible_thumbnails_def for_each_widget_def case_prod_beta)
  moreover have "\<forall>i < length d.
        is_filtered (snd (select_visible_thumbnails d ! i)) = is_filtered (snd (d ! i))
        \<and> (\<not> is_filtered (snd (d ! i)) \<longrightarrow> is_selected (snd (select_visible_thumbnails d ! i)))
        \<and> (is_filtered (snd (d ! i)) \<longrightarrow> snd (select_visible_thumbnails d ! i) = snd (d ! i))"
    by (simp add: select_visible_nth set_selected_def)
  ultimately show ?thesis by blast
qed

theorem select_visible_soft_witness:
  "select_visible_thumbnails
     [(''a.png'', \<lparr>is_selected = False, is_filtered = True\<rparr>),
      (''b.png'', \<lparr>is_selected = False, is_filtered = False\<rparr>)]
   = [(''a.png'', \<lparr>is_selected = False, is_filtered = True\<rparr>),
      (''b.png'', \<lparr>is_selected = True, is_filtered = False\<rparr>)]"
proof -
  let ?d = "[(''a.png'', \<lparr>is_selected = False, is_filtered = True\<rparr>),
             (''b.png'', \<lparr>is_selected = False, is_filtered = False\<rparr>)]"
  have a: "(0::nat) < length ?d" and b: "(1::nat) < length ?d" by simp_all
  from select_visible_soft [of ?d] a b
  show ?thesis
    by (simp add: select_visible_thumbnails_def for_each_widget_def set_selected_def)
qed

section \<open>Watermark detection\<close>


lemma excluded_of_append: "excluded_of (xs @ ys) = excluded_of xs @ excluded_of ys"
  by (simp add: excluded_of_def)

lemma excluded_of_Cons_log: "excluded_of (Log_message m # xs) = excluded_of xs"
  by (simp add: excluded_of_def)

lemma excluded_of_done: "excluded_of [Processing_done n ex] = ex"
  by (simp add: excluded_of_def)


lemma only_logs_excluded: "only_logs xs \<Longrightarrow> excluded_of xs = []"
  by (induction xs) (simp_all add: only_logs_def excluded_of_def)

lemma only_logs_snoc: "only_logs (xs @ [Log_message m]) = only_logs xs"
  by (simp add: only_logs_def)

lemma set_set_add: "set (set_add x xs) = insert x (set xs)"
  by (auto simp: set_add_def)

lemma distinct_set_add: "distinct xs \<Longrightarrow> distinct (set_add x xs)"
  by (simp add: set_add_def)

lemma watermark_check_file_set:
  "set (fst (watermark_check_file basename max_match threshold invert_logic (ex, lg) p)) =
     set ex \<union> (if (case max_match p of None \<Rightarrow> True
                     | Some v \<Rightarrow> if invert_logic then v \<ge> threshold else v < threshold)
                then {basename p} else {})"
  by (auto simp: watermark_check_file_def Let_def set_set_add split: option.splits)

lemma watermark_check_file_logs:
  "only_logs lg \<Longrightarrow>
   only_logs (snd (watermark_check_file basename max_match threshold invert_logic (ex, lg) p))"
  by (auto simp: watermark_check_file_def Let_def only_logs_snoc split: option.splits)

lemma watermark_fold_set:
  "set (fst (foldl (watermark_check_file basename max_match threshold invert_logic) st file_list)) =
     set (fst st) \<union> basename ` {p \<in> set file_list.
        case max_match p of None \<Rightarrow> True
        | Some v \<Rightarrow> if invert_logic then v \<ge> threshold else v < threshold}"
proof (induction file_list arbitrary: st)
  case Nil
  then show ?case by simp
next
  case (Cons p ps)
  obtain ex lg where st: "st = (ex, lg)" by (cases st)
  show ?case
    unfolding foldl_Cons Cons.IH st watermark_check_file_set
    by auto
qed

lemma watermark_fold_logs:
  "only_logs (snd st) \<Longrightarrow>
   only_logs (snd (foldl (watermark_check_file basename max_match threshold invert_logic) st file_list))"
proof (induction file_list arbitrary: st)
  case Nil
  then show ?case by simp
next
  case (Cons p ps)
  obtain ex lg where st: "st = (ex, lg)" by (cases st)
  with Cons.prems have "only_logs lg" by simp
  then have "only_logs (snd (watermark_check_file basename max_match threshold invert_logic st p))"
    unfolding st by (rule watermark_check_file_logs)
  then show ?case unfolding foldl_Cons by (rule Cons.IH)
qed

lemma watermark_excluded_set:
  assumes "open_template watermark_path = Some template"
  shows "set (excluded_of (watermark_check_task basename open_template max_match watermark_path
            threshold invert_logic file_list)) =
         basename ` {p \<in> set file_list.
            case max_match template p of None \<Rightarrow> True
            | Some v \<Rightarrow> if invert_logic then v \<ge> threshold else v < threshold}"
proof -
  let ?st0 = "([], [Log_message (if invert_logic then Mode_exclude_containing threshold
                                 else Mode_exclude_lacking threshold)])"
  let ?r = "foldl (watermark_check_file basename (max_match template) threshold invert_logic)
              ?st0 file_list"
  have "only_logs (snd ?st0)" by (simp add: only_logs_def)
  then have logs: "only_logs (snd ?r)" by (rule watermark_fold_logs)
  have "excluded_of (watermark_check_task basename open_template max_match watermark_path
            threshold invert_logic file_list) = fst ?r"
    using assms only_logs_excluded[OF logs]
    by (simp add: watermark_check_task_def case_prod_beta excluded_of_append
        excluded_of_Cons_log excluded_of_done)
  then show ?thesis by (simp add: watermark_fold_set)
qed

text \<open>
  C3. When the template opens and the candidates have distinct base names (they come
  from one folder), a candidate's name is in the excluded list of the run if and only
  if the candidate could not be opened or matched, or the run is not inverted and its
  best score is below the threshold, or the run is inverted and its best score is at
  least the threshold.
\<close>

theorem watermark_exclusion:
  assumes "open_template watermark_path = Some template"
    and "distinct (map basename file_list)"
    and "file_path \<in> set file_list"
  shows "basename file_path \<in> set (excluded_of (watermark_check_task basename open_template
            max_match watermark_path threshold invert_logic file_list))
         \<longleftrightarrow> (case max_match template file_path of
               None \<Rightarrow> True
             | Some max_val \<Rightarrow> (\<not> invert_logic \<and> max_val < threshold)
                               \<or> (invert_logic \<and> max_val \<ge> threshold))"
proof -
  let ?c = "\<lambda>p. case max_match template p of None \<Rightarrow> True
             | Some v \<Rightarrow> if invert_logic then v \<ge> threshold else v < threshold"
  from assms(2) have inj: "inj_on basename (set file_list)" by (simp add: distinct_map)
  have "basename file_path \<in> basename ` {p \<in> set file_list. ?c p} \<longleftrightarrow> ?c file_path"
  proof
    assume "basename file_path \<in> basename ` {p \<in> set file_list. ?c p}"
    then obtain q where q: "q \<in> set file_list" "?c q" "basename file_path = basename q" by auto
    with inj assms(3) have "q = file_path" by (auto dest: inj_onD)
    with q show "?c file_path" by simp
  next
    assume "?c file_path"
    with assms(3) show "basename file_path \<in> basename ` {p \<in> set file_list. ?c p}" by blast
  qed
  moreover have "?c file_path \<longleftrightarrow> (case max_match template file_path of
               None \<Rightarrow> True
             | Some max_val \<Rightarrow> (\<not> invert_logic \<and> max_val < threshold)
                               \<or> (invert_logic \<and> max_val \<ge> threshold))"
    by (cases "max_match template file_path") auto
  ultimately show ?thesis
    by (simp only: watermark_excluded_set[where open_template = open_template and watermark_path = watermark_path, OF assms(1)])
qed

theorem watermark_exclusion_witness:
  "''b.png'' \<in> set (excluded_of (watermark_check_task basename_slash (\<lambda>p. Some ())
       (\<lambda>t p. if p = ''d/a.png'' then Some 1 else if p = ''d/b.png'' then Some 0 else None)
       ''wm.png'' (8 / 10) False [''d/a.png'', ''d/b.png'', ''d/c.png'']))"
  using watermark_exclusion
    [where open_template = "\<lambda>p. Some ()" and watermark_path = "''wm.png''" and template = "()"
       and basename = basename_slash and file_list = "[''d/a.png'', ''d/b.png'', ''d/c.png'']"
       and file_path = "''d/b.png''" and threshold = "8 / 10" and invert_logic = False
       and max_match = "\<lambda>t p. if p = ''d/a.png'' then Some 1
                              else if p = ''d/b.png'' then Some 0 else None"]
  by (simp add: basename_slash_def)

lemma watermark_complement_matched:
  assumes "open_template watermark_path = Some template"
    and "distinct (map basename file_list)"
    and "\<forall>p \<in> set file_list. max_match template p \<noteq> None"
  shows "set (excluded_of (watermark_check_task basename open_template max_match watermark_path
            threshold True file_list))
         = basename ` set file_list
           - set (excluded_of (watermark_check_task basename open_template max_match watermark_path
                threshold False file_list))"
proof -
  from assms(2) have inj: "inj_on basename (set file_list)" by (simp add: distinct_map)
  let ?A = "{p \<in> set file_list. case max_match template p of None \<Rightarrow> True
             | Some v \<Rightarrow> if True then v \<ge> threshold else v < threshold}"
  let ?B = "{p \<in> set file_list. case max_match template p of None \<Rightarrow> True
             | Some v \<Rightarrow> if False then v \<ge> threshold else v < threshold}"
  have "?A = set file_list - ?B"
    using assms(3) by (auto split: option.splits)
  then have "basename ` ?A = basename ` (set file_list - ?B)" by simp
  also have "\<dots> = basename ` set file_list - basename ` ?B"
    by (rule inj_on_image_set_diff[OF inj]) auto
  finally show ?thesis
    by (simp only: watermark_excluded_set[where open_template = open_template and watermark_path = watermark_path, OF assms(1)])
qed

text \<open>
  A candidate that opens but on which matching raises is excluded by the plain run and
  by the inverted run alike, so the inverted result is not the complement of the plain
  one although the candidate was decoded.
\<close>

theorem watermark_unmatched_in_both:
  "(\<lambda>p :: string. Some p) ''d/a.png'' = Some ''d/a.png''
   \<and> excluded_of (watermark_check_task basename_slash (\<lambda>p. Some ())
         (match_image (\<lambda>p. Some p) (\<lambda>(main_image :: string) (t :: unit). None))
         ''wm.png'' (8 / 10) True [''d/a.png'']) = [''a.png'']
   \<and> excluded_of (watermark_check_task basename_slash (\<lambda>p. Some ())
         (match_image (\<lambda>p. Some p) (\<lambda>(main_image :: string) (t :: unit). None))
         ''wm.png'' (8 / 10) False [''d/a.png'']) = [''a.png'']
   \<and> set (excluded_of (watermark_check_task basename_slash (\<lambda>p. Some ())
         (match_image (\<lambda>p. Some p) (\<lambda>(main_image :: string) (t :: unit). None))
         ''wm.png'' (8 / 10) True [''d/a.png'']))
       \<noteq> basename_slash ` set [''d/a.png'']
         - set (excluded_of (watermark_check_task basename_slash (\<lambda>p. Some ())
             (match_image (\<lambda>p. Some p) (\<lambda>(main_image :: string) (t :: unit). None))
             ''wm.png'' (8 / 10) False [''d/a.png'']))"
proof -
  have a: "excluded_of (watermark_check_task basename_slash (\<lambda>p. Some ())
         (match_image (\<lambda>p. Some p) (\<lambda>(main_image :: string) (t :: unit). None))
         ''wm.png'' (8 / 10) True [''d/a.png'']) = [''a.png'']"
    by (simp add: watermark_check_task_def watermark_check_file_def match_image_def
        excluded_of_def set_add_def basename_slash_def Let_def)
  have b: "excluded_of (watermark_check_task basename_slash (\<lambda>p. Some ())
         (match_image (\<lambda>p. Some p) (\<lambda>(main_image :: string) (t :: unit). None))
         ''wm.png'' (8 / 10) False [''d/a.png'']) = [''a.png'']"
    by (simp add: watermark_check_task_def watermark_check_file_def match_image_def
        excluded_of_def set_add_def basename_slash_def Let_def)
  have c: "set [''a.png''] \<noteq> basename_slash ` set [''d/a.png''] - set [''a.png'']"
    by (simp add: basename_slash_def)
  show ?thesis unfolding a b using c by simp
qed

text \<open>
  C8. When the template opens, the candidates have distinct base names and every
  candidate is opened and also matched against the template without an exception, the
  names excluded by the inverted run are exactly the names of the candidates that the
  plain run with the same template and threshold does not exclude.
\<close>

theorem watermark_invert_complement:
  assumes "open_template watermark_path = Some template"
    and "distinct (map basename file_list)"
    and "\<forall>p \<in> set file_list. \<exists>main_image max_val.
           open_gray p = Some main_image \<and> match_template main_image template = Some max_val"
  shows "set (excluded_of (watermark_check_task basename open_template
            (match_image open_gray match_template) watermark_path threshold True file_list))
         = basename ` set file_list
           - set (excluded_of (watermark_check_task basename open_template
                (match_image open_gray match_template) watermark_path threshold False file_list))"
proof -
  have "\<forall>p \<in> set file_list. match_image open_gray match_template template p \<noteq> None"
    using assms(3) by (auto simp: match_image_def)
  with assms(1,2) show ?thesis
    by (rule watermark_complement_matched
        [where open_template = open_template and watermark_path = watermark_path])
qed

theorem watermark_invert_complement_witness:
  "set (excluded_of (watermark_check_task basename_slash (\<lambda>p. Some ())
       (match_image (\<lambda>p. Some p)
          (\<lambda>main_image (t :: unit). if main_image = ''d/a.png'' then Some 1 else Some 0))
       ''wm.png'' (8 / 10) True [''d/a.png'', ''d/b.png'']))
   = basename_slash ` set [''d/a.png'', ''d/b.png'']
     - set (excluded_of (watermark_check_task basename_slash (\<lambda>p. Some ())
       (match_image (\<lambda>p. Some p)
          (\<lambda>main_image (t :: unit). if main_image = ''d/a.png'' then Some 1 else Some 0))
       ''wm.png'' (8 / 10) False [''d/a.png'', ''d/b.png'']))"
proof -
  let ?og = "\<lambda>p :: string. Some p"
  let ?mt = "\<lambda>(main_image :: string) (t :: unit).
               if main_image = ''d/a.png'' then Some (1 :: real) else Some 0"
  have h1: "(\<lambda>p :: string. Some ()) ''wm.png'' = Some ()" by simp
  have h2: "distinct (map basename_slash [''d/a.png'', ''d/b.png''])"
    by (simp add: basename_slash_def)
  have h3: "\<forall>p \<in> set [''d/a.png'', ''d/b.png'']. \<exists>main_image max_val.
      ?og p = Some main_image \<and> ?mt main_image () = Some max_val" by simp
  show ?thesis
    by (rule watermark_invert_complement
        [where open_template = "\<lambda>p. Some ()" and open_gray = ?og and match_template = ?mt,
         OF h1 h2 h3])
qed

text \<open>
  C10. When the template cannot be opened, the task emits the log line of the error and
  then its \<^verbatim>\<open>processing_done\<close> signal with an empty list, nothing else; applying
  that result leaves every widget as it was.
\<close>

theorem template_unreadable:
  assumes "open_template watermark_path = None"
  shows "watermark_check_task basename open_template max_match watermark_path threshold
           invert_logic file_list
         = [Log_message (Template_unreadable watermark_path), Processing_done ''watermark'' []]
       \<and> on_processing_done
           (excluded_of (watermark_check_task basename open_template max_match watermark_path
              threshold invert_logic file_list)) d = d"
proof -
  have a: "watermark_check_task basename open_template max_match watermark_path threshold
           invert_logic file_list
         = [Log_message (Template_unreadable watermark_path), Processing_done ''watermark'' []]"
    using assms by (simp add: watermark_check_task_def)
  have "on_processing_done [] d = d"
    by (simp add: on_processing_done_def case_prod_beta)
  with a show ?thesis by (simp add: excluded_of_def)
qed

theorem template_unreadable_witness:
  "watermark_check_task basename_slash (\<lambda>p. None :: unit option) (\<lambda>t p. Some 1) ''wm.png'' (8 / 10)
     False [''d/a.png'', ''d/b.png'']
   = [Log_message (Template_unreadable ''wm.png''), Processing_done ''watermark'' []]"
  using template_unreadable
    [where open_template = "\<lambda>p. None :: unit option" and watermark_path = "''wm.png''"
       and basename = basename_slash and max_match = "\<lambda>t p. Some 1" and threshold = "8 / 10"
       and invert_logic = False and file_list = "[''d/a.png'', ''d/b.png'']"]
  by simp

section \<open>Document assembly\<close>

lemma add_page_fold:
  "foldl (add_page join open_rgb folder) (imgs, lg) others =
     (imgs @ List.map_filter (\<lambda>filename. open_rgb (join folder filename)) others,
      lg @ pages_log join open_rgb folder others)"
proof (induction others arbitrary: imgs lg)
  case Nil
  then show ?case by (simp add: pages_log_def map_filter_simps)
next
  case (Cons f fs)
  show ?case
  proof (cases "open_rgb (join folder f)")
    case None
    then have "add_page join open_rgb folder (imgs, lg) f =
        (imgs, lg @ [Log_message (Adding_page f), Log_message (Skipped_unopenable f)])"
      by (simp add: add_page_def)
    then show ?thesis
      using None by (simp add: Cons.IH pages_log_def map_filter_simps)
  next
    case (Some img)
    then have "add_page join open_rgb folder (imgs, lg) f =
        (imgs @ [img], lg @ [Log_message (Adding_page f)])"
      by (simp add: add_page_def)
    then show ?thesis
      using Some by (simp add: Cons.IH pages_log_def map_filter_simps)
  qed
qed

lemma skipped_in_pages_log:
  "filename \<in> set others \<Longrightarrow> open_rgb (join folder filename) = None \<Longrightarrow>
   Log_message (Skipped_unopenable filename) \<in> set (pages_log join open_rgb folder others)"
  by (auto simp: pages_log_def)

text \<open>
  C7. With an empty list of images the task logs that nothing can be generated and emits
  \<^verbatim>\<open>pdf_done("fail", ...)\<close>, and \<^verbatim>\<open>cover.save\<close> is never called: no file is written.
\<close>

theorem create_pdf_empty:
  "create_pdf_task join open_rgb save_ok folder [] output_pdf_path
   = ([Log_message No_images_for_pdf, Pdf_done ''fail'' No_image_text], [])"
  by (simp add: create_pdf_task_def)

theorem create_pdf_empty_witness:
  "create_pdf_task join_slash (\<lambda>p. Some p) (\<lambda>p pages. True) ''d'' [] ''d/d.pdf''
   = ([Log_message No_images_for_pdf, Pdf_done ''fail'' No_image_text], [])"
  by (rule create_pdf_empty)

text \<open>
  C6. When the first image cannot be opened the job fails and \<^verbatim>\<open>cover.save\<close> is not
  called. When it opens (and the save returns), the job succeeds whatever happens to
  the later images: the one call of \<^verbatim>\<open>cover.save\<close> gets the cover followed by the
  later images that opened, in the order of the list, and every later image that did
  not open has its warning in the log. With three images of which only the second
  fails, the document has exactly the first and the third page.
\<close>

theorem create_pdf_pages:
  "(open_rgb (join folder first_name) = None \<longrightarrow>
      create_pdf_task join open_rgb save_ok folder (first_name # others) output_pdf_path
      = ([Log_message (Pdf_started (Suc (length others))), Log_message (Adding_cover first_name),
          Log_message Pdf_failed, Pdf_done ''fail'' Exception_text], []))
   \<and> (open_rgb (join folder first_name) = Some cover
        \<and> save_ok output_pdf_path
             (cover # List.map_filter (\<lambda>filename. open_rgb (join folder filename)) others) \<longrightarrow>
      create_pdf_task join open_rgb save_ok folder (first_name # others) output_pdf_path
      = ([Log_message (Pdf_started (Suc (length others))), Log_message (Adding_cover first_name)]
           @ pages_log join open_rgb folder others
           @ [Log_message Pdf_created, Pdf_done ''success'' (Output_path output_pdf_path)],
         [(output_pdf_path,
           cover # List.map_filter (\<lambda>filename. open_rgb (join folder filename)) others)])
      \<and> (\<forall>filename \<in> set others. open_rgb (join folder filename) = None \<longrightarrow>
            Log_message (Skipped_unopenable filename)
              \<in> set (pages_log join open_rgb folder others)))
   \<and> (open_rgb (join folder first_name) = Some cover \<and> open_rgb (join folder second_name) = None
        \<and> open_rgb (join folder third_name) = Some third \<and> save_ok output_pdf_path [cover, third] \<longrightarrow>
      create_pdf_task join open_rgb save_ok folder [first_name, second_name, third_name]
        output_pdf_path
      = ([Log_message (Pdf_started 3), Log_message (Adding_cover first_name),
          Log_message (Adding_page second_name), Log_message (Skipped_unopenable second_name),
          Log_message (Adding_page third_name),
          Log_message Pdf_created, Pdf_done ''success'' (Output_path output_pdf_path)],
         [(output_pdf_path, [cover, third])]))"
proof -
  have a: "open_rgb (join folder first_name) = None \<longrightarrow>
      create_pdf_task join open_rgb save_ok folder (first_name # others) output_pdf_path
      = ([Log_message (Pdf_started (Suc (length others))), Log_message (Adding_cover first_name),
          Log_message Pdf_failed, Pdf_done ''fail'' Exception_text], [])"
    by (simp add: create_pdf_task_def)
  have b: "open_rgb (join folder first_name) = Some cover
        \<and> save_ok output_pdf_path
             (cover # List.map_filter (\<lambda>filename. open_rgb (join folder filename)) others) \<longrightarrow>
      create_pdf_task join open_rgb save_ok folder (first_name # others) output_pdf_path
      = ([Log_message (Pdf_started (Suc (length others))), Log_message (Adding_cover first_name)]
           @ pages_log join open_rgb folder others
           @ [Log_message Pdf_created, Pdf_done ''success'' (Output_path output_pdf_path)],
         [(output_pdf_path,
           cover # List.map_filter (\<lambda>filename. open_rgb (join folder filename)) others)])"
    by (simp add: create_pdf_task_def add_page_fold)
  have c: "\<forall>filename \<in> set others. open_rgb (join folder filename) = None \<longrightarrow>
            Log_message (Skipped_unopenable filename)
              \<in> set (pages_log join open_rgb folder others)"
    by (simp add: skipped_in_pages_log)
  have d: "open_rgb (join folder first_name) = Some cover \<and> open_rgb (join folder second_name) = None
        \<and> open_rgb (join folder third_name) = Some third \<and> save_ok output_pdf_path [cover, third] \<longrightarrow>
      create_pdf_task join open_rgb save_ok folder [first_name, second_name, third_name]
        output_pdf_path
      = ([Log_message (Pdf_started 3), Log_message (Adding_cover first_name),
          Log_message (Adding_page second_name), Log_message (Skipped_unopenable second_name),
          Log_message (Adding_page third_name),
          Log_message Pdf_created, Pdf_done ''success'' (Output_path output_pdf_path)],
         [(output_pdf_path, [cover, third])])"
    by (simp add: create_pdf_task_def add_page_fold pages_log_def map_filter_simps)
  from a b c d show ?thesis by blast
qed

theorem create_pdf_pages_witness:
  "create_pdf_task join_slash (\<lambda>p. if p = ''d/2.png'' then None else Some p) (\<lambda>p pages. True)
     ''d'' [''1.png'', ''2.png'', ''3.png''] ''d/d.pdf''
   = ([Log_message (Pdf_started 3), Log_message (Adding_cover ''1.png''),
       Log_message (Adding_page ''2.png''), Log_message (Skipped_unopenable ''2.png''),
       Log_message (Adding_page ''3.png''),
       Log_message Pdf_created, Pdf_done ''success'' (Output_path ''d/d.pdf'')],
      [(''d/d.pdf'', [''d/1.png'', ''d/3.png''])])"
  using create_pdf_pages
    [where join = join_slash and open_rgb = "\<lambda>p. if p = ''d/2.png'' then None else Some p"
       and save_ok = "\<lambda>p pages. True" and folder = "''d''" and first_name = "''1.png''"
       and second_name = "''2.png''" and third_name = "''3.png''" and cover = "''d/1.png''"
       and third = "''d/3.png''" and output_pdf_path = "''d/d.pdf''"
       and others = "[''2.png'', ''3.png'']"]
  by (simp add: join_slash_def map_filter_simps pages_log_def)

section \<open>Natural ordering\<close>

lemma no_digit_not_isdigit: "no_digit s \<Longrightarrow> \<not> isdigit s"
  by (cases s) (auto simp: no_digit_def isdigit_def)

lemma no_digit_takeWhile: "no_digit (takeWhile (\<lambda>c. \<not> is_digit c) s)"
  by (auto simp: no_digit_def list_all_iff dest: set_takeWhileD)

lemma dropWhile_Nil_no_digit: "dropWhile (\<lambda>c. \<not> is_digit c) s = [] \<Longrightarrow> no_digit s"
  by (auto simp: no_digit_def list_all_iff dropWhile_eq_Nil_conv)

lemma isdigit_takeWhile:
  assumes "r = dropWhile (\<lambda>c. \<not> is_digit c) s" and "r \<noteq> []"
  shows "isdigit (takeWhile is_digit r)"
proof -
  from assms have "is_digit (hd r)" using hd_dropWhile[of "\<lambda>c. \<not> is_digit c" s] by simp
  with assms(2) have "takeWhile is_digit r \<noteq> []" by (cases r) simp_all
  moreover have "list_all is_digit (takeWhile is_digit r)"
    by (auto simp: list_all_iff dest: set_takeWhileD)
  ultimately show ?thesis by (simp add: isdigit_def)
qed

lemma re_split_last:
  "dropWhile (\<lambda>c. \<not> is_digit c) s = [] \<Longrightarrow> re_split s = [s]"
  apply (subst re_split.simps)
  apply (simp only: Let_def simp_thms if_True)
  done

lemma re_split_more:
  "dropWhile (\<lambda>c. \<not> is_digit c) s \<noteq> [] \<Longrightarrow>
   re_split s = takeWhile (\<lambda>c. \<not> is_digit c) s
                # takeWhile is_digit (dropWhile (\<lambda>c. \<not> is_digit c) s)
                # re_split (dropWhile is_digit (dropWhile (\<lambda>c. \<not> is_digit c) s))"
  apply (subst re_split.simps)
  apply (simp only: Let_def simp_thms if_False)
  done

lemma concat_re_split: "concat (re_split s) = s"
proof (induction s rule: re_split.induct)
  case (1 s)
  let ?r = "dropWhile (\<lambda>c. \<not> is_digit c) s"
  show ?case
  proof (cases "?r = []")
    case True
    then show ?thesis by (simp only: re_split_last concat.simps append_Nil2)
  next
    case False
    have ih: "concat (re_split (dropWhile is_digit ?r)) = dropWhile is_digit ?r"
      by (rule 1[OF refl False])
    have "concat (re_split s) =
        takeWhile (\<lambda>c. \<not> is_digit c) s @ (takeWhile is_digit ?r @ dropWhile is_digit ?r)"
      by (simp only: re_split_more[OF False] concat.simps ih)
    then show ?thesis by (simp only: takeWhile_dropWhile_id)
  qed
qed

lemma re_split_runs:
  "first \<or> s = [] \<or> \<not> is_digit (hd s) \<Longrightarrow> alternating_runs first (re_split s)"
proof (induction s arbitrary: first rule: re_split.induct)
  case (1 s)
  let ?r = "dropWhile (\<lambda>c. \<not> is_digit c) s"
  show ?case
  proof (cases "?r = []")
    case True
    then show ?thesis by (simp add: re_split_last dropWhile_Nil_no_digit)
  next
    case False
    let ?rest = "dropWhile is_digit ?r"
    have "?rest = [] \<or> \<not> is_digit (hd ?rest)"
      using hd_dropWhile[of is_digit ?r] by blast
    then have ih: "alternating_runs False (re_split ?rest)"
      by (rule 1(1)[OF refl False, of False, OF disjI2])
    have "first \<or> takeWhile (\<lambda>c. \<not> is_digit c) s \<noteq> []"
      using 1(2) False by (cases s) auto
    then show ?thesis
      using ih False isdigit_takeWhile[OF refl False] no_digit_takeWhile[of s]
      by (simp only: re_split_more[OF False] alternating_runs.simps simp_thms)
  qed
qed

lemma alternating_map_key:
  "alternating_runs first ps \<Longrightarrow> alternating True (map key_part_of ps)"
  by (induction first ps rule: alternating_runs.induct)
     (auto simp: key_part_of_def no_digit_not_isdigit)

lemma alternating_key: "alternating True (natural_sort_key s)"
  unfolding natural_sort_key_def
  by (rule alternating_map_key[of True]) (simp add: re_split_runs)

lemma key_lt_refl: "key_lt a a = Inr False"
  by (induction a) simp_all

lemma alternating_Cons:
  "alternating t (k # ks) =
     ((case k of Txt _ \<Rightarrow> t | Num _ \<Rightarrow> \<not> t) \<and> alternating (\<not> t) ks)"
  by (cases k) auto

lemma key_lt_total_fun:
  "alternating t a \<Longrightarrow> alternating t b \<Longrightarrow> key_lt a b = Inr True \<or> key_lt a b = Inr False"
proof (induction a b arbitrary: t rule: key_lt.induct)
  case (4 x xs y ys)
  then show ?case
    by (cases x; cases y) (auto simp: alternating_Cons)
qed simp_all

lemma key_lt_asym:
  "key_lt a b = Inr True \<Longrightarrow> key_lt b a = Inr False"
proof (induction a b rule: key_lt.induct)
  case (4 x xs y ys)
  then show ?case by (cases x; cases y) (auto split: if_splits)
qed simp_all

lemma key_lt_linear:
  "alternating t a \<Longrightarrow> alternating t b \<Longrightarrow> key_lt a b = Inr False \<Longrightarrow>
   key_lt b a = Inr False \<Longrightarrow> a = b"
proof (induction a b arbitrary: t rule: key_lt.induct)
  case (4 x xs y ys)
  then show ?case by (cases x; cases y) (auto simp: alternating_Cons split: if_splits)
qed simp_all

lemma part_lt_trans:
  "part_lt x y = Inr True \<Longrightarrow> part_lt y z = Inr True \<Longrightarrow> part_lt x z = Inr True \<and> x \<noteq> z"
proof (cases x)
  case (Num a)
  assume "part_lt x y = Inr True" "part_lt y z = Inr True"
  with Num show ?thesis by (cases y; cases z) simp_all
next
  case (Txt a)
  assume "part_lt x y = Inr True" "part_lt y z = Inr True"
  with Txt show ?thesis by (cases y; cases z) (simp_all, use less_trans in blast)
qed

lemma key_lt_trans:
  "key_lt a b = Inr True \<Longrightarrow> key_lt b c = Inr True \<Longrightarrow> key_lt a c = Inr True"
proof (induction a b arbitrary: c rule: key_lt.induct)
  case 1
  then show ?case by simp
next
  case (2 y ys)
  then show ?case by (cases c) simp_all
next
  case (3 x xs)
  then show ?case by simp
next
  case (4 x xs y ys)
  show ?case
  proof (cases c)
    case Nil
    with 4(3) show ?thesis by simp
  next
    case (Cons z zs)
    show ?thesis
    proof (cases "x = y")
      case xy: True
      with 4(2) have a: "key_lt xs ys = Inr True" by simp
      show ?thesis
      proof (cases "y = z")
        case True
        with 4(3) Cons have "key_lt ys zs = Inr True" by simp
        with 4(1)[OF xy a] have "key_lt xs zs = Inr True" .
        with xy True Cons show ?thesis by simp
      next
        case False
        with 4(3) Cons have "part_lt y z = Inr True" by simp
        with xy False Cons show ?thesis by simp
      qed
    next
      case xy: False
      with 4(2) have a: "part_lt x y = Inr True" by simp
      show ?thesis
      proof (cases "y = z")
        case True
        with a xy Cons show ?thesis by simp
      next
        case False
        with 4(3) Cons have "part_lt y z = Inr True" by simp
        with a have "part_lt x z = Inr True \<and> x \<noteq> z" by (rule part_lt_trans)
        with Cons show ?thesis by simp
      qed
    qed
  qed
qed

lemma key_lt_keys:
  "key_lt (natural_sort_key s) (natural_sort_key t) = Inr (natural_less s t)"
  using key_lt_total_fun[OF alternating_key[of s] alternating_key[of t]]
  by (auto simp: natural_less_def)

lemma natural_le_iff: "natural_le s t \<longleftrightarrow> \<not> natural_less t s"
  by (simp add: natural_le_def key_lt_keys)

lemma natural_le_refl: "natural_le s s"
  by (simp add: natural_le_def key_lt_refl)

lemma natural_less_imp_le: "natural_less s t \<Longrightarrow> natural_le s t"
  unfolding natural_less_def natural_le_def by (rule key_lt_asym)

lemma natural_le_total: "natural_le s t \<or> natural_le t s"
  using natural_less_imp_le[of s t] by (auto simp: natural_le_iff)

lemma natural_le_same_key:
  "natural_le s t \<and> natural_le t s \<longleftrightarrow> natural_sort_key s = natural_sort_key t"
proof
  assume "natural_le s t \<and> natural_le t s"
  then show "natural_sort_key s = natural_sort_key t"
    unfolding natural_le_def
    using key_lt_linear[OF alternating_key[of s] alternating_key[of t]] by blast
next
  assume "natural_sort_key s = natural_sort_key t"
  then show "natural_le s t \<and> natural_le t s"
    by (simp add: natural_le_def key_lt_refl)
qed

lemma natural_less_trans:
  "natural_less s t \<Longrightarrow> natural_less t u \<Longrightarrow> natural_less s u"
  unfolding natural_less_def by (rule key_lt_trans)

lemma natural_le_trans:
  assumes "natural_le s t" and "natural_le t u"
  shows "natural_le s u"
proof (rule ccontr)
  assume "\<not> natural_le s u"
  then have us: "natural_less u s" by (simp add: natural_le_iff)
  show False
  proof (cases "natural_less s t")
    case True
    with us have "natural_less u t" by (rule natural_less_trans)
    with assms(2) show False by (simp add: natural_le_iff)
  next
    case False
    then have "natural_le t s" by (simp add: natural_le_iff)
    with assms(1) have k: "natural_sort_key s = natural_sort_key t"
      by (simp add: natural_le_same_key[symmetric])
    from us have "natural_less u t" by (simp add: natural_less_def k)
    with assms(2) show False by (simp add: natural_le_iff)
  qed
qed

lemma insort_by_key_Cons:
  "insort_by_key x (y # ys) =
     (if natural_less y x
      then (case insort_by_key x ys of Inl e \<Rightarrow> Inl e | Inr zs \<Rightarrow> Inr (y # zs))
      else Inr (x # y # ys))"
  by (simp add: key_lt_keys)

lemma insort_by_key_ok:
  "sorted_wrt natural_le ys \<Longrightarrow>
   \<exists>zs. insort_by_key x ys = Inr zs \<and> sorted_wrt natural_le zs \<and> mset zs = mset (x # ys)"
proof (induction ys)
  case Nil
  then show ?case by simp
next
  case (Cons y ys)
  show ?case
  proof (cases "natural_less y x")
    case True
    from Cons obtain zs where zs: "insort_by_key x ys = Inr zs" "sorted_wrt natural_le zs"
      "mset zs = mset (x # ys)" by auto
    from zs(3) have "set zs = insert x (set ys)"
      by (metis list.simps(15) mset_eq_setD)
    moreover have "natural_le y x" using True by (rule natural_less_imp_le)
    ultimately have "\<forall>z \<in> set zs. natural_le y z" using Cons.prems by auto
    with zs True show ?thesis by (simp add: insort_by_key_Cons del: insort_by_key.simps)
  next
    case False
    then have xy: "natural_le x y" by (simp add: natural_le_iff)
    have "\<forall>z \<in> set ys. natural_le x z"
      using Cons.prems xy by (auto intro: natural_le_trans)
    with False xy Cons.prems show ?thesis
      by (simp add: insort_by_key_Cons del: insort_by_key.simps)
  qed
qed

lemma sort_by_key_ok:
  "\<exists>ys. sort_by_key xs = Inr ys \<and> sorted_wrt natural_le ys \<and> mset ys = mset xs"
proof (induction xs)
  case Nil
  then show ?case by simp
next
  case (Cons x xs)
  then obtain ys where ys: "sort_by_key xs = Inr ys" "sorted_wrt natural_le ys"
    "mset ys = mset xs" by auto
  from insort_by_key_ok[OF ys(2), of x] obtain zs where
    "insort_by_key x ys = Inr zs" "sorted_wrt natural_le zs" "mset zs = mset (x # ys)" by auto
  with ys show ?case by simp
qed

lemma sort_by_key_sorted:
  "sorted_wrt natural_le xs \<Longrightarrow> sort_by_key xs = Inr xs"
proof (induction xs)
  case Nil
  then show ?case by simp
next
  case (Cons x xs)
  then have ih: "sort_by_key xs = Inr xs" by simp
  show ?case
  proof (cases xs)
    case Nil
    then show ?thesis by simp
  next
    case (Cons y ys)
    with Cons.prems have "natural_le x y" by simp
    then have "\<not> natural_less y x" by (simp add: natural_le_iff)
    with Cons ih show ?thesis by (simp add: insort_by_key_Cons del: insort_by_key.simps)
  qed
qed

lemma key_lt_lex:
  "key_lt a b = Inr True \<longleftrightarrow>
     (\<exists>i < length a. i < length b \<and> take i a = take i b \<and> a ! i \<noteq> b ! i
                     \<and> part_lt (a ! i) (b ! i) = Inr True)
     \<or> (length a < length b \<and> take (length a) b = a)"
proof (induction a b rule: key_lt.induct)
  case (4 x xs y ys)
  show ?case
  proof (cases "x = y")
    case True
    with 4 show ?thesis by (simp add: Ex_less_Suc2)
  next
    case False
    then show ?thesis by (auto simp: Ex_less_Suc2)
  qed
qed simp_all

text \<open>
  The order is not antisymmetric on file names: leading zeros do not count in a run of
  digits, so two different names can each come before the other.
\<close>

theorem natural_order_ties:
  "natural_le ''img1.png'' ''img01.png'' \<and> natural_le ''img01.png'' ''img1.png''
   \<and> ''img1.png'' \<noteq> ''img01.png''"
  by code_simp

text \<open>
  C9. For ASCII names: \<^verbatim>\<open>re.split\<close> cuts a name into alternating runs, texts
  without digits and non-empty runs of digits, that concatenate to the name. Comparing
  two keys never raises; a key is smaller exactly when the first differing run is
  smaller (numbers as integers, texts lower-cased) or when it is a proper prefix. On
  these names the order is reflexive, transitive and total, and two names are tied
  exactly when their keys are equal. Sorting never raises and returns a sorted
  permutation of its input; sorting img2, img10, img1 gives img1, img2, img10.
\<close>

theorem natural_ordering:
  assumes "ascii_name s" and "ascii_name t" and "ascii_name u" and "list_all ascii_name xs"
  shows "concat (re_split s) = s \<and> alternating_runs True (re_split s)
   \<and> key_lt (natural_sort_key s) (natural_sort_key t) = Inr (natural_less s t)
   \<and> (natural_less s t \<longleftrightarrow>
        (\<exists>i < length (natural_sort_key s). i < length (natural_sort_key t)
            \<and> take i (natural_sort_key s) = take i (natural_sort_key t)
            \<and> natural_sort_key s ! i \<noteq> natural_sort_key t ! i
            \<and> part_lt (natural_sort_key s ! i) (natural_sort_key t ! i) = Inr True)
        \<or> (length (natural_sort_key s) < length (natural_sort_key t)
            \<and> take (length (natural_sort_key s)) (natural_sort_key t) = natural_sort_key s))
   \<and> (natural_le s t \<longleftrightarrow> \<not> natural_less t s)
   \<and> natural_le s s
   \<and> (natural_le s t \<or> natural_le t s)
   \<and> (natural_le s t \<and> natural_le t u \<longrightarrow> natural_le s u)
   \<and> (natural_le s t \<and> natural_le t s \<longleftrightarrow> natural_sort_key s = natural_sort_key t)
   \<and> (\<exists>ys. sort_by_key xs = Inr ys \<and> sorted_wrt natural_le ys \<and> mset ys = mset xs)
   \<and> sort_by_key [''img2'', ''img10'', ''img1''] = Inr [''img1'', ''img2'', ''img10'']"
proof -
  have a: "concat (re_split s) = s \<and> alternating_runs True (re_split s)"
    by (simp add: concat_re_split re_split_runs)
  have b: "natural_less s t \<longleftrightarrow>
        (\<exists>i < length (natural_sort_key s). i < length (natural_sort_key t)
            \<and> take i (natural_sort_key s) = take i (natural_sort_key t)
            \<and> natural_sort_key s ! i \<noteq> natural_sort_key t ! i
            \<and> part_lt (natural_sort_key s ! i) (natural_sort_key t ! i) = Inr True)
        \<or> (length (natural_sort_key s) < length (natural_sort_key t)
            \<and> take (length (natural_sort_key s)) (natural_sort_key t) = natural_sort_key s)"
    unfolding natural_less_def by (rule key_lt_lex)
  have c: "natural_le s t \<and> natural_le t u \<longrightarrow> natural_le s u"
    using natural_le_trans by blast
  have d: "sort_by_key [''img2'', ''img10'', ''img1''] = Inr [''img1'', ''img2'', ''img10'']"
    by code_simp
  show ?thesis
    using a b c d key_lt_keys[of s t] natural_le_iff[of s t] natural_le_refl[of s]
      natural_le_total[of s t] natural_le_same_key[of s t] sort_by_key_ok[of xs]
    by blast
qed

theorem natural_ordering_witness:
  "natural_le ''img2.png'' ''img10.png'' \<and> natural_le ''img10.png'' ''IMG11.png''
   \<and> natural_le ''img2.png'' ''IMG11.png''"
proof -
  have a: "natural_le ''img2.png'' ''img10.png''" by code_simp
  have b: "natural_le ''img10.png'' ''IMG11.png''" by code_simp
  have h: "ascii_name ''img2.png''" "ascii_name ''img10.png''" "ascii_name ''IMG11.png''"
    "list_all ascii_name [''img2.png'', ''img10.png'', ''IMG11.png'']"
    by (simp_all add: ascii_name_def)
  from natural_ordering[OF h] a b
  show ?thesis by blast
qed

section \<open>Deduplication of animation frames\<close>

lemma compare_pair_hit:
  "cache prev_file = Some hp \<Longrightarrow> phash (join folder curr_file) = Some hc \<Longrightarrow>
   compare_pair join phash hamming folder t prev_file curr_file (cache, ex, lg) =
     (cache(curr_file \<mapsto> hc),
      if hamming hp hc \<le> t then set_add prev_file ex else ex,
      lg @ [Log_message (if hamming hp hc \<le> t then Similar prev_file curr_file (hamming hp hc)
                         else Different prev_file curr_file (hamming hp hc))])"
  by (simp add: compare_pair_def Let_def)

lemma compare_pair_grow:
  "\<exists>c' ex' m. compare_pair join phash hamming folder t prev_file curr_file (c, ex, lg)
      = (c', ex', lg @ [Log_message m]) \<and> set ex \<subseteq> set ex'"
  by (auto simp: compare_pair_def Let_def set_set_add split: option.splits)

lemma compare_fold_grow:
  "\<exists>c' ex' lg'. foldl (\<lambda>st i. compare_pair join phash hamming folder t (vs ! (i - 1)) (vs ! i) st)
        (c, ex, lg) js = (c', ex', lg @ lg') \<and> set ex \<subseteq> set ex' \<and> only_logs lg'"
proof (induction js arbitrary: c ex lg)
  case Nil
  then show ?case by (simp add: only_logs_def)
next
  case (Cons j js)
  obtain c1 ex1 m where s1: "compare_pair join phash hamming folder t (vs ! (j - 1)) (vs ! j) (c, ex, lg)
      = (c1, ex1, lg @ [Log_message m])" "set ex \<subseteq> set ex1"
    using compare_pair_grow[of join phash hamming folder t "vs ! (j - 1)" "vs ! j" c ex lg] by blast
  from Cons.IH[of c1 ex1 "lg @ [Log_message m]"] obtain c' ex' lg' where
    s2: "foldl (\<lambda>st i. compare_pair join phash hamming folder t (vs ! (i - 1)) (vs ! i) st)
        (c1, ex1, lg @ [Log_message m]) js = (c', ex', (lg @ [Log_message m]) @ lg')"
      "set ex1 \<subseteq> set ex'" "only_logs lg'" by blast
  have "only_logs (Log_message m # lg')" using s2(3) by (simp add: only_logs_def)
  with s1 s2 show ?case by (intro exI[of _ c'] exI[of _ ex'] exI[of _ "Log_message m # lg'"]) auto
qed

lemma compare_loop_prefix:
  assumes "\<forall>i \<le> m. phash (join folder (vs ! i)) = Some (h (vs ! i))"
  shows "\<exists>cache ex.
      foldl (\<lambda>st i. compare_pair join phash hamming folder t (vs ! (i - 1)) (vs ! i) st)
        ([vs ! 0 \<mapsto> h (vs ! 0)], [], lg0) [1..<Suc m]
      = (cache, ex, lg0 @ map (comparison hamming h t vs) [1..<Suc m])
      \<and> cache (vs ! m) = Some (h (vs ! m))
      \<and> set ex = {vs ! (i - 1) | i. 1 \<le> i \<and> i < Suc m \<and> frame_distance hamming h vs i \<le> t}"
  using assms
proof (induction m)
  case 0
  then show ?case by simp
next
  case (Suc m)
  from Suc.prems have pre: "\<forall>i \<le> m. phash (join folder (vs ! i)) = Some (h (vs ! i))" by simp
  from Suc.IH[OF pre] obtain cache ex where ih:
    "foldl (\<lambda>st i. compare_pair join phash hamming folder t (vs ! (i - 1)) (vs ! i) st)
        ([vs ! 0 \<mapsto> h (vs ! 0)], [], lg0) [1..<Suc m]
      = (cache, ex, lg0 @ map (comparison hamming h t vs) [1..<Suc m])"
    "cache (vs ! m) = Some (h (vs ! m))"
    "set ex = {vs ! (i - 1) | i. 1 \<le> i \<and> i < Suc m \<and> frame_distance hamming h vs i \<le> t}"
    by blast
  from Suc.prems have cur: "phash (join folder (vs ! Suc m)) = Some (h (vs ! Suc m))" by simp
  let ?d = "frame_distance hamming h vs (Suc m)"
  let ?ex' = "if ?d \<le> t then set_add (vs ! m) ex else ex"
  let ?cache' = "cache(vs ! Suc m \<mapsto> h (vs ! Suc m))"
  have stepm: "compare_pair join phash hamming folder t (vs ! (Suc m - 1)) (vs ! Suc m)
      (cache, ex, lg0 @ map (comparison hamming h t vs) [1..<Suc m])
    = (?cache', ?ex', lg0 @ map (comparison hamming h t vs) [1..<Suc (Suc m)])"
    using ih(2) cur
    by (simp add: compare_pair_hit comparison_def frame_distance_def)
  have "[1..<Suc (Suc m)] = [1..<Suc m] @ [Suc m]" by simp
  then have fold: "foldl (\<lambda>st i. compare_pair join phash hamming folder t (vs ! (i - 1)) (vs ! i) st)
        ([vs ! 0 \<mapsto> h (vs ! 0)], [], lg0) [1..<Suc (Suc m)]
      = (?cache', ?ex', lg0 @ map (comparison hamming h t vs) [1..<Suc (Suc m)])"
    using ih(1) stepm by (simp only: foldl_append foldl_Cons foldl_Nil)
  have "set ?ex' = {vs ! (i - 1) | i. 1 \<le> i \<and> i < Suc (Suc m) \<and> frame_distance hamming h vs i \<le> t}"
  proof (cases "?d \<le> t")
    case True
    have "{vs ! (i - 1) | i. 1 \<le> i \<and> i < Suc (Suc m) \<and> frame_distance hamming h vs i \<le> t}
        = insert (vs ! m) {vs ! (i - 1) | i. 1 \<le> i \<and> i < Suc m \<and> frame_distance hamming h vs i \<le> t}"
    proof (intro set_eqI iffI)
      fix x
      assume "x \<in> {vs ! (i - 1) | i. 1 \<le> i \<and> i < Suc (Suc m) \<and> frame_distance hamming h vs i \<le> t}"
      then obtain i where i: "x = vs ! (i - 1)" "1 \<le> i" "i < Suc (Suc m)"
        "frame_distance hamming h vs i \<le> t" by blast
      show "x \<in> insert (vs ! m) {vs ! (i - 1) | i. 1 \<le> i \<and> i < Suc m \<and> frame_distance hamming h vs i \<le> t}"
      proof (cases "i = Suc m")
        case True
        with i(1) show ?thesis by simp
      next
        case False
        with i(3) have "i < Suc m" by simp
        with i show ?thesis by blast
      qed
    next
      fix x
      assume "x \<in> insert (vs ! m) {vs ! (i - 1) | i. 1 \<le> i \<and> i < Suc m \<and> frame_distance hamming h vs i \<le> t}"
      then consider "x = vs ! m"
        | i where "x = vs ! (i - 1)" "1 \<le> i" "i < Suc m" "frame_distance hamming h vs i \<le> t"
        by blast
      then show "x \<in> {vs ! (i - 1) | i. 1 \<le> i \<and> i < Suc (Suc m) \<and> frame_distance hamming h vs i \<le> t}"
      proof cases
        case 1
        then have "x = vs ! (Suc m - 1)" by simp
        moreover have "1 \<le> Suc m" "Suc m < Suc (Suc m)" by simp_all
        ultimately show ?thesis using True by blast
      next
        case 2
        then have "i < Suc (Suc m)" by simp
        with 2 show ?thesis by blast
      qed
    qed
    with True ih(3) show ?thesis by (simp add: set_set_add)
  next
    case False
    have "{vs ! (i - 1) | i. 1 \<le> i \<and> i < Suc (Suc m) \<and> frame_distance hamming h vs i \<le> t}
        = {vs ! (i - 1) | i. 1 \<le> i \<and> i < Suc m \<and> frame_distance hamming h vs i \<le> t}"
    proof (intro set_eqI iffI)
      fix x
      assume "x \<in> {vs ! (i - 1) | i. 1 \<le> i \<and> i < Suc (Suc m) \<and> frame_distance hamming h vs i \<le> t}"
      then obtain i where i: "x = vs ! (i - 1)" "1 \<le> i" "i < Suc (Suc m)"
        "frame_distance hamming h vs i \<le> t" by blast
      from i(4) False have "i \<noteq> Suc m" by blast
      with i(3) have "i < Suc m" by simp
      with i show "x \<in> {vs ! (i - 1) | i. 1 \<le> i \<and> i < Suc m \<and> frame_distance hamming h vs i \<le> t}"
        by blast
    next
      fix x
      assume "x \<in> {vs ! (i - 1) | i. 1 \<le> i \<and> i < Suc m \<and> frame_distance hamming h vs i \<le> t}"
      then obtain i where i: "x = vs ! (i - 1)" "1 \<le> i" "i < Suc m"
        "frame_distance hamming h vs i \<le> t" by blast
      then have "i < Suc (Suc m)" by simp
      with i show "x \<in> {vs ! (i - 1) | i. 1 \<le> i \<and> i < Suc (Suc m) \<and> frame_distance hamming h vs i \<le> t}"
        by blast
    qed
    with False ih(3) show ?thesis by simp
  qed
  moreover have "?cache' (vs ! Suc m) = Some (h (vs ! Suc m))" by simp
  ultimately show ?case using fold by blast
qed

lemma excluded_of_map_comparison:
  "excluded_of (map (comparison hamming h t vs) js) = []"
  by (induction js) (simp_all add: excluded_of_def comparison_def)

lemma animation_all_hashed:
  assumes "sorted_wrt natural_le files" and "2 \<le> length files"
    and "\<forall>f \<in> set files. phash (join folder f) = Some (h f)"
  shows "\<exists>ex. animation_check_task join phash hamming folder t files
           = [Log_message (Animation_started t), Log_message (Animation_comparing (length files))]
             @ map (comparison hamming h t files) [1..<length files]
             @ [Log_message (Animation_finished (length ex)), Processing_done ''animation'' ex]
         \<and> set ex = {files ! (i - 1) | i. 1 \<le> i \<and> i < length files
                          \<and> frame_distance hamming h files i \<le> t}"
proof -
  let ?lg0 = "[Log_message (Animation_started t), Log_message (Animation_comparing (length files))]"
  obtain m where m: "length files = Suc m" using assms(2) by (cases "length files") simp_all
  have srt: "sort_by_key files = Inr files" using assms(1) by (rule sort_by_key_sorted)
  have all: "\<forall>i \<le> m. phash (join folder (files ! i)) = Some (h (files ! i))"
    using assms(3) m by (simp add: le_imp_less_Suc)
  then have first: "phash (join folder (files ! 0)) = Some (h (files ! 0))" by simp
  from compare_loop_prefix[where phash = phash and join = join and folder = folder and vs = files
      and h = h and m = m and hamming = hamming and t = t and ?lg0.0 = ?lg0, OF all]
  obtain cache ex where loop:
    "foldl (\<lambda>st i. compare_pair join phash hamming folder t (files ! (i - 1)) (files ! i) st)
        ([files ! 0 \<mapsto> h (files ! 0)], [], ?lg0) [1..<Suc m]
      = (cache, ex, ?lg0 @ map (comparison hamming h t files) [1..<Suc m])"
    "set ex = {files ! (i - 1) | i. 1 \<le> i \<and> i < Suc m \<and> frame_distance hamming h files i \<le> t}"
    by blast
  have gt: "length files > 1" using assms(2) by simp
  have "animation_check_task join phash hamming folder t files
           = ?lg0 @ map (comparison hamming h t files) [1..<length files]
             @ [Log_message (Animation_finished (length ex)), Processing_done ''animation'' ex]"
    unfolding animation_check_task_def srt sum.case Let_def if_P[OF gt] first option.case
      loop(1)[folded m] prod.case
    by simp
  with loop(2)[folded m] show ?thesis by blast
qed

lemma excluded_of_animation:
  "excluded_of ([Log_message a, Log_message b] @ map (comparison hamming h t files) js
      @ [Log_message c, Processing_done n ex]) = ex"
  by (simp add: excluded_of_append excluded_of_map_comparison excluded_of_Cons_log
      excluded_of_done)

text \<open>
  C2. For a list of at least two distinct names in natural order whose frames all hash,
  the task logs one comparison for every position \<open>i\<close> from 1 to \<open>n - 1\<close>, each
  between the hashes of the frames at \<open>i - 1\<close> and \<open>i\<close> themselves, and emits its
  result last. The frame at \<open>i - 1\<close> is excluded exactly when that distance is at most
  the threshold, and the last frame never is. So in a run of \<open>k\<close> frames from
  position \<open>a\<close>, each within the threshold of the next, that ends the list or is
  followed by a frame beyond the threshold, the first \<open>k - 1\<close> frames are excluded and
  the last one is kept. With three frames at distances 3 and 20 and threshold 10 the
  excluded set is the first frame alone.
\<close>

theorem dedup_consecutive:
  assumes srt: "sorted_wrt natural_le files" and len: "2 \<le> length files"
    and hashed: "\<forall>f \<in> set files. phash (join folder f) = Some (h f)"
    and dist: "distinct files"
  shows "animation_check_task join phash hamming folder t files
       = [Log_message (Animation_started t), Log_message (Animation_comparing (length files))]
         @ map (comparison hamming h t files) [1..<length files]
         @ [Log_message (Animation_finished (length (excluded_of
                (animation_check_task join phash hamming folder t files)))),
            Processing_done ''animation'' (excluded_of
                (animation_check_task join phash hamming folder t files))]
     \<and> set (excluded_of (animation_check_task join phash hamming folder t files))
         = {files ! (i - 1) | i. 1 \<le> i \<and> i < length files \<and> frame_distance hamming h files i \<le> t}
     \<and> (1 \<le> i \<and> i < length files \<longrightarrow>
           (files ! (i - 1) \<in> set (excluded_of (animation_check_task join phash hamming folder t files))
            \<longleftrightarrow> frame_distance hamming h files i \<le> t))
     \<and> files ! (length files - 1) \<notin> set (excluded_of (animation_check_task join phash hamming folder t files))
     \<and> (1 \<le> k \<and> a + k \<le> length files
          \<and> (\<forall>j. a < j \<and> j < a + k \<longrightarrow> frame_distance hamming h files j \<le> t)
          \<and> (a + k < length files \<longrightarrow> \<not> frame_distance hamming h files (a + k) \<le> t) \<longrightarrow>
          (\<forall>j. a \<le> j \<and> j < a + k - 1 \<longrightarrow>
              files ! j \<in> set (excluded_of (animation_check_task join phash hamming folder t files)))
          \<and> files ! (a + k - 1) \<notin> set (excluded_of (animation_check_task join phash hamming folder t files)))
     \<and> (length files = 3 \<and> frame_distance hamming h files 1 = 3 \<and> frame_distance hamming h files 2 = 20 \<and> t = 10 \<longrightarrow>
          set (excluded_of (animation_check_task join phash hamming folder t files)) = {files ! 0})"
proof -
  let ?T = "animation_check_task join phash hamming folder t files"
  let ?d = "frame_distance hamming h files"
  from animation_all_hashed[where phash = phash and join = join and folder = folder and h = h
      and hamming = hamming and t = t, OF srt len hashed]
  obtain ex where
    T: "?T = [Log_message (Animation_started t), Log_message (Animation_comparing (length files))]
             @ map (comparison hamming h t files) [1..<length files]
             @ [Log_message (Animation_finished (length ex)), Processing_done ''animation'' ex]"
    and ex: "set ex = {files ! (i - 1) | i. 1 \<le> i \<and> i < length files \<and> ?d i \<le> t}"
    by blast
  have exof: "excluded_of ?T = ex" unfolding T by (rule excluded_of_animation)
  have c1: "?T = [Log_message (Animation_started t), Log_message (Animation_comparing (length files))]
             @ map (comparison hamming h t files) [1..<length files]
             @ [Log_message (Animation_finished (length (excluded_of ?T))),
                Processing_done ''animation'' (excluded_of ?T)]"
    unfolding exof by (rule T)
  have c2: "set (excluded_of ?T)
      = {files ! (i - 1) | i. 1 \<le> i \<and> i < length files \<and> ?d i \<le> t}"
    unfolding exof by (rule ex)
  have mem: "files ! (i - 1) \<in> set (excluded_of ?T) \<longleftrightarrow> ?d i \<le> t"
    if i: "1 \<le> i" "i < length files" for i
  proof
    assume "files ! (i - 1) \<in> set (excluded_of ?T)"
    then obtain i' where i': "files ! (i - 1) = files ! (i' - 1)" "1 \<le> i'" "i' < length files"
      "?d i' \<le> t" unfolding c2 by blast
    from i i' dist have "i - 1 = i' - 1" by (simp add: nth_eq_iff_index_eq)
    with i i' have "i = i'" by simp
    with i' show "?d i \<le> t" by simp
  next
    assume "?d i \<le> t"
    with i show "files ! (i - 1) \<in> set (excluded_of ?T)" unfolding c2 by blast
  qed
  have lastout: "files ! (length files - 1) \<notin> set (excluded_of ?T)"
  proof
    assume "files ! (length files - 1) \<in> set (excluded_of ?T)"
    then obtain i' where i': "files ! (length files - 1) = files ! (i' - 1)" "1 \<le> i'"
      "i' < length files" unfolding c2 by blast
    from i' dist len have "length files - 1 = i' - 1" by (simp add: nth_eq_iff_index_eq)
    with i' show False by simp
  qed
  have c5: "(\<forall>j. a \<le> j \<and> j < a + k - 1 \<longrightarrow> files ! j \<in> set (excluded_of ?T))
          \<and> files ! (a + k - 1) \<notin> set (excluded_of ?T)"
    if run: "1 \<le> k" "a + k \<le> length files" "\<forall>j. a < j \<and> j < a + k \<longrightarrow> ?d j \<le> t"
      "a + k < length files \<longrightarrow> \<not> ?d (a + k) \<le> t"
  proof (intro conjI allI impI)
    fix j assume j: "a \<le> j \<and> j < a + k - 1"
    with run have "1 \<le> Suc j" "Suc j < length files" "?d (Suc j) \<le> t" by auto
    with mem[of "Suc j"] show "files ! j \<in> set (excluded_of ?T)" by simp
  next
    show "files ! (a + k - 1) \<notin> set (excluded_of ?T)"
    proof (cases "a + k < length files")
      case True
      with run have "\<not> ?d (a + k) \<le> t" "1 \<le> a + k" by auto
      with mem[of "a + k"] True show ?thesis by simp
    next
      case False
      with run have "a + k = length files" by simp
      with lastout show ?thesis by simp
    qed
  qed
  have c6: "set (excluded_of ?T) = {files ! 0}"
    if three: "length files = 3" "?d 1 = 3" "?d 2 = 20" "t = 10"
  proof -
    have "{files ! (i - 1) | i. 1 \<le> i \<and> i < length files \<and> ?d i \<le> t} = {files ! 0}"
    proof (intro set_eqI iffI)
      fix x
      assume "x \<in> {files ! (i - 1) | i. 1 \<le> i \<and> i < length files \<and> ?d i \<le> t}"
      then obtain i where i: "x = files ! (i - 1)" "1 \<le> i" "i < length files" "?d i \<le> t"
        by blast
      with three have "i = 1 \<or> i = 2" by auto
      with i(4) three have "i = 1" by auto
      with i(1) show "x \<in> {files ! 0}" by simp
    next
      fix x
      assume "x \<in> {files ! 0}"
      then have "x = files ! (1 - 1)" by simp
      moreover have "(1::nat) \<le> 1" "1 < length files" "?d 1 \<le> t" using three by simp_all
      ultimately show "x \<in> {files ! (i - 1) | i. 1 \<le> i \<and> i < length files \<and> ?d i \<le> t}"
        by blast
    qed
    with c2 show ?thesis by simp
  qed
  from c1 c2 mem lastout c5 c6 show ?thesis by blast
qed

theorem dedup_consecutive_witness:
  "set (excluded_of (animation_check_task join_slash
       (\<lambda>p. if p = ''d/frame0.png'' then Some 0
            else if p = ''d/frame1.png'' then Some 3 else Some (23::int))
       (\<lambda>a b. \<bar>a - b\<bar>) ''d'' 10 [''frame0.png'', ''frame1.png'', ''frame2.png'']))
   = {''frame0.png''}"
proof -
  let ?files = "[''frame0.png'', ''frame1.png'', ''frame2.png'']"
  let ?phash = "\<lambda>p. if p = ''d/frame0.png'' then Some 0
                     else if p = ''d/frame1.png'' then Some 3 else Some (23::int)"
  let ?h = "\<lambda>f. if f = ''frame0.png'' then 0 else if f = ''frame1.png'' then 3 else (23::int)"
  let ?hamming = "\<lambda>a b :: int. \<bar>a - b\<bar>"
  have srt: "sorted_wrt natural_le ?files" by code_simp
  have len: "2 \<le> length ?files" by simp
  have hashed: "\<forall>f \<in> set ?files. ?phash (join_slash ''d'' f) = Some (?h f)"
    by (simp add: join_slash_def)
  have dist: "distinct ?files" by simp
  have d: "length ?files = 3 \<and> frame_distance ?hamming ?h ?files 1 = 3
      \<and> frame_distance ?hamming ?h ?files 2 = 20 \<and> (10::int) = 10"
    by (simp add: frame_distance_def)
  from dedup_consecutive[where phash = ?phash and join = join_slash and folder = "''d''"
      and h = ?h and hamming = ?hamming and t = 10 and files = ?files, OF srt len hashed dist]
  have "length ?files = 3 \<and> frame_distance ?hamming ?h ?files 1 = 3
      \<and> frame_distance ?hamming ?h ?files 2 = 20 \<and> (10::int) = 10 \<longrightarrow>
      set (excluded_of (animation_check_task join_slash ?phash ?hamming ''d'' 10 ?files))
      = {?files ! 0}"
    by blast
  with d have "set (excluded_of (animation_check_task join_slash ?phash ?hamming ''d'' 10 ?files))
      = {?files ! 0}" by blast
  then show ?thesis by simp
qed

lemma compare_pair_miss:
  "cache prev_file = Some hp \<Longrightarrow> phash (join folder curr_file) = None \<Longrightarrow>
   compare_pair join phash hamming folder t prev_file curr_file (cache, ex, lg) =
     (cache, ex, lg @ [Log_message (Compare_error (IOError (join folder curr_file)))])"
  by (simp add: compare_pair_def Let_def)

lemma only_logs_filter: "only_logs xs \<Longrightarrow> filter is_processing_done xs = []"
  by (induction xs) (simp_all add: only_logs_def)

lemma only_logs_append: "only_logs (xs @ ys) = (only_logs xs \<and> only_logs ys)"
  by (simp add: only_logs_def)

lemma only_logs_map_comparison: "only_logs (map (comparison hamming h t vs) js)"
  by (induction js) (simp_all add: only_logs_def comparison_def)

lemma animation_first_fails:
  assumes "sorted_wrt natural_le files" and "2 \<le> length files"
    and "phash (join folder (files ! 0)) = None"
  shows "animation_check_task join phash hamming folder t files
         = [Log_message (Animation_started t), Log_message (Animation_comparing (length files)),
            Log_message (Cannot_process (files ! 0)), Processing_done ''animation'' []]"
proof -
  have srt: "sort_by_key files = Inr files" using assms(1) by (rule sort_by_key_sorted)
  have gt: "length files > 1" using assms(2) by simp
  show ?thesis
    unfolding animation_check_task_def srt sum.case Let_def if_P[OF gt] assms(3) option.case
    by simp
qed

lemma animation_later_fails:
  assumes srt: "sorted_wrt natural_le files"
    and k: "1 \<le> k" "k < length files"
    and before: "\<forall>i < k. phash (join folder (files ! i)) = Some (h (files ! i))"
    and fails: "phash (join folder (files ! k)) = None"
  shows "\<exists>ex lgs. animation_check_task join phash hamming folder t files
           = [Log_message (Animation_started t), Log_message (Animation_comparing (length files))]
             @ lgs @ [Log_message (Animation_finished (length ex)), Processing_done ''animation'' ex]
         \<and> only_logs lgs
         \<and> Log_message (Compare_error (IOError (join folder (files ! k)))) \<in> set lgs
         \<and> {files ! (i - 1) | i. 1 \<le> i \<and> i < k \<and> frame_distance hamming h files i \<le> t}
             \<subseteq> set ex"
proof -
  let ?lg0 = "[Log_message (Animation_started t), Log_message (Animation_comparing (length files))]"
  let ?step = "\<lambda>st i. compare_pair join phash hamming folder t (files ! (i - 1)) (files ! i) st"
  obtain m where m: "k = Suc m" using k(1) by (cases k) simp_all
  have sorted: "sort_by_key files = Inr files" using srt by (rule sort_by_key_sorted)
  have gt: "length files > 1" using k by simp
  have all: "\<forall>i \<le> m. phash (join folder (files ! i)) = Some (h (files ! i))"
    using before m by (simp add: le_imp_less_Suc)
  then have first: "phash (join folder (files ! 0)) = Some (h (files ! 0))" by simp
  from compare_loop_prefix[where phash = phash and join = join and folder = folder and vs = files
      and h = h and m = m and hamming = hamming and t = t and ?lg0.0 = ?lg0, OF all]
  obtain cache ex where loop:
    "foldl ?step ([files ! 0 \<mapsto> h (files ! 0)], [], ?lg0) [1..<Suc m]
      = (cache, ex, ?lg0 @ map (comparison hamming h t files) [1..<Suc m])"
    "cache (files ! m) = Some (h (files ! m))"
    "set ex = {files ! (i - 1) | i. 1 \<le> i \<and> i < Suc m \<and> frame_distance hamming h files i \<le> t}"
    by blast
  let ?lgk = "?lg0 @ map (comparison hamming h t files) [1..<Suc m]
              @ [Log_message (Compare_error (IOError (join folder (files ! k))))]"
  have stepk: "?step (cache, ex, ?lg0 @ map (comparison hamming h t files) [1..<Suc m]) k
      = (cache, ex, ?lgk)"
    using compare_pair_miss[of cache "files ! m" "h (files ! m)" phash join folder "files ! k"
        hamming t ex "?lg0 @ map (comparison hamming h t files) [1..<Suc m]"]
      loop(2) fails m by simp
  from compare_fold_grow[of join phash hamming folder t files cache ex ?lgk "[Suc k..<length files]"]
  obtain c' ex' lg' where rest:
    "foldl ?step (cache, ex, ?lgk) [Suc k..<length files] = (c', ex', ?lgk @ lg')"
    "set ex \<subseteq> set ex'" "only_logs lg'" by blast
  have split: "[1..<length files] = [1..<Suc m] @ k # [Suc k..<length files]"
  proof -
    from k(2) obtain d where d: "length files = k + d"
      using le_Suc_ex[of k "length files"] by auto
    have "[1..<k + d] = [1..<k] @ [k..<k + d]"
      using k(1) by (rule upt_add_eq_append)
    then have "[1..<length files] = [1..<k] @ [k..<length files]"
      unfolding d .
    moreover have "[k..<length files] = k # [Suc k..<length files]"
      using k(2) by (rule upt_conv_Cons)
    ultimately show ?thesis using m by simp
  qed
  have fold: "foldl ?step ([files ! 0 \<mapsto> h (files ! 0)], [], ?lg0) [1..<length files]
      = (c', ex', ?lgk @ lg')"
    unfolding split foldl_append foldl_Cons loop(1) stepk rest(1) ..
  let ?lgs = "map (comparison hamming h t files) [1..<Suc m]
              @ [Log_message (Compare_error (IOError (join folder (files ! k))))] @ lg'"
  have T: "animation_check_task join phash hamming folder t files
           = ?lg0 @ ?lgs @ [Log_message (Animation_finished (length ex')),
                            Processing_done ''animation'' ex']"
    unfolding animation_check_task_def sorted sum.case Let_def if_P[OF gt] first option.case
      fold prod.case
    by simp
  have "only_logs ?lgs"
    using rest(3) by (simp add: only_logs_append only_logs_map_comparison) (simp add: only_logs_def)
  moreover have "Log_message (Compare_error (IOError (join folder (files ! k)))) \<in> set ?lgs"
    by simp
  moreover have "{files ! (i - 1) | i. 1 \<le> i \<and> i < k \<and> frame_distance hamming h files i \<le> t}
      \<subseteq> set ex'"
    using rest(2) loop(3) m by simp
  ultimately show ?thesis using T by blast
qed

text \<open>
  Two runs with threshold 10 in which every frame that hashes has the same hash. When
  the first frame does not hash, the task stops with an empty result. When the second
  of four frames does not hash, the two comparisons after it find no cached hash for
  their previous frame, so nothing is compared and nothing is excluded.
\<close>

theorem dedup_failure_poisons:
  "animation_check_task join_slash (\<lambda>p. if p = ''d/f0.png'' then None else Some (7::int))
     (\<lambda>a b. \<bar>a - b\<bar>) ''d'' 10 [''f0.png'', ''f1.png'', ''f2.png'']
   = [Log_message (Animation_started 10), Log_message (Animation_comparing 3),
      Log_message (Cannot_process ''f0.png''), Processing_done ''animation'' []]
   \<and> animation_check_task join_slash (\<lambda>p. if p = ''d/f1.png'' then None else Some (7::int))
     (\<lambda>a b. \<bar>a - b\<bar>) ''d'' 10 [''f0.png'', ''f1.png'', ''f2.png'', ''f3.png'']
   = [Log_message (Animation_started 10), Log_message (Animation_comparing 4),
      Log_message (Compare_error (IOError ''d/f1.png'')),
      Log_message (Compare_error (KeyError ''f1.png'')),
      Log_message (Compare_error (KeyError ''f2.png'')),
      Log_message (Animation_finished 0), Processing_done ''animation'' []]"
  by code_simp

text \<open>
  C4. On a list of at least two names in natural order: when the first frame does not
  hash, the pass ends at once with a log line and an empty result. When the frames
  before position \<open>k \<ge> 1\<close> hash and the frame at \<open>k\<close> does not, the pass goes on
  to its end: the error of that comparison is logged, every exclusion made by the
  comparisons before it is in the result, and the result is emitted once, as the last
  signal.
\<close>

theorem dedup_failure:
  assumes srt: "sorted_wrt natural_le files" and len: "2 \<le> length files"
  shows "(phash (join folder (files ! 0)) = None \<longrightarrow>
            animation_check_task join phash hamming folder t files
            = [Log_message (Animation_started t),
               Log_message (Animation_comparing (length files)),
               Log_message (Cannot_process (files ! 0)), Processing_done ''animation'' []])
       \<and> (1 \<le> k \<and> k < length files
            \<and> (\<forall>i < k. phash (join folder (files ! i)) = Some (h (files ! i)))
            \<and> phash (join folder (files ! k)) = None \<longrightarrow>
            {files ! (i - 1) | i. 1 \<le> i \<and> i < k \<and> frame_distance hamming h files i \<le> t}
              \<subseteq> set (excluded_of (animation_check_task join phash hamming folder t files))
            \<and> Log_message (Compare_error (IOError (join folder (files ! k))))
                \<in> set (animation_check_task join phash hamming folder t files)
            \<and> last (animation_check_task join phash hamming folder t files)
                = Processing_done ''animation''
                    (excluded_of (animation_check_task join phash hamming folder t files))
            \<and> length (filter is_processing_done
                  (animation_check_task join phash hamming folder t files)) = 1)"
proof (intro conjI impI)
  assume "phash (join folder (files ! 0)) = None"
  with srt len show "animation_check_task join phash hamming folder t files
            = [Log_message (Animation_started t),
               Log_message (Animation_comparing (length files)),
               Log_message (Cannot_process (files ! 0)), Processing_done ''animation'' []]"
    by (rule animation_first_fails)
next
  let ?T = "animation_check_task join phash hamming folder t files"
  assume a: "1 \<le> k \<and> k < length files
            \<and> (\<forall>i < k. phash (join folder (files ! i)) = Some (h (files ! i)))
            \<and> phash (join folder (files ! k)) = None"
  from a have k1: "1 \<le> k" and k2: "k < length files"
    and bf: "\<forall>i < k. phash (join folder (files ! i)) = Some (h (files ! i))"
    and fl: "phash (join folder (files ! k)) = None" by simp_all
  from animation_later_fails[where phash = phash and join = join and folder = folder and h = h
      and hamming = hamming and t = t and k = k and files = files, OF srt k1 k2 bf fl]
  obtain ex lgs where T: "?T
           = [Log_message (Animation_started t), Log_message (Animation_comparing (length files))]
             @ lgs @ [Log_message (Animation_finished (length ex)), Processing_done ''animation'' ex]"
    and lgs: "only_logs lgs"
      "Log_message (Compare_error (IOError (join folder (files ! k)))) \<in> set lgs"
    and sub: "{files ! (i - 1) | i. 1 \<le> i \<and> i < k \<and> frame_distance hamming h files i \<le> t}
             \<subseteq> set ex"
    by blast
  have exof: "excluded_of ?T = ex"
    unfolding T using only_logs_excluded[OF lgs(1)]
    by (simp add: excluded_of_append excluded_of_Cons_log excluded_of_done)
  show "{files ! (i - 1) | i. 1 \<le> i \<and> i < k \<and> frame_distance hamming h files i \<le> t}
              \<subseteq> set (excluded_of ?T)"
    unfolding exof by (rule sub)
  show "Log_message (Compare_error (IOError (join folder (files ! k)))) \<in> set ?T"
    unfolding T using lgs(2) by simp
  show "last ?T = Processing_done ''animation'' (excluded_of ?T)"
    unfolding exof unfolding T by simp
  show "length (filter is_processing_done ?T) = 1"
    unfolding T using only_logs_filter[OF lgs(1)] by simp
qed

theorem dedup_failure_witness:
  "{''f0.png''} \<subseteq> set (excluded_of (animation_check_task join_slash
       (\<lambda>p. if p = ''d/f2.png'' then None else Some (7::int))
       (\<lambda>a b. \<bar>a - b\<bar>) ''d'' 10 [''f0.png'', ''f1.png'', ''f2.png'', ''f3.png'']))"
proof -
  let ?files = "[''f0.png'', ''f1.png'', ''f2.png'', ''f3.png'']"
  let ?phash = "\<lambda>p. if p = ''d/f2.png'' then None else Some (7::int)"
  let ?h = "\<lambda>f :: string. 7 :: int"
  let ?hamming = "\<lambda>a b :: int. \<bar>a - b\<bar>"
  have srt: "sorted_wrt natural_le ?files" by code_simp
  have len: "2 \<le> length ?files" by simp
  have hyp: "1 \<le> (2::nat) \<and> 2 < length ?files
      \<and> (\<forall>i < 2. ?phash (join_slash ''d'' (?files ! i)) = Some (?h (?files ! i)))
      \<and> ?phash (join_slash ''d'' (?files ! 2)) = None"
    by (simp add: join_slash_def less_Suc_eq numeral_2_eq_2)
  have mem: "''f0.png'' \<in> {?files ! (i - 1) | i. 1 \<le> i \<and> i < 2
      \<and> frame_distance ?hamming ?h ?files i \<le> 10}"
  proof -
    have "''f0.png'' = ?files ! (1 - 1)" "1 \<le> (1::nat)" "(1::nat) < 2"
      "frame_distance ?hamming ?h ?files 1 \<le> 10"
      by (simp_all add: frame_distance_def)
    then show ?thesis by blast
  qed
  from dedup_failure[where phash = ?phash and join = join_slash and folder = "''d''"
      and h = ?h and hamming = ?hamming and t = 10 and files = ?files and k = 2, OF srt len] hyp
  have "{?files ! (i - 1) | i. 1 \<le> i \<and> i < 2 \<and> frame_distance ?hamming ?h ?files i \<le> 10}
      \<subseteq> set (excluded_of (animation_check_task join_slash ?phash ?hamming ''d'' 10 ?files))"
    by blast
  with mem show ?thesis by blast
qed

end
